theory Spec2Isabelle
  imports Complex_Main "HOL-Library.Word"
begin

section \<open>JavaScript strings\<close>

text \<open>
  A JavaScript string is a sequence of 16-bit UTF-16 code units; \<open>length\<close>, \<open>substring\<close>,
  \<open>slice\<close>, \<open>startsWith\<close> and \<open>split\<close> all count and compare code units.  String literals
  of the source are ASCII and are written \<open>js ''...''\<close>.
\<close>

type_synonym code_unit = "16 word"
type_synonym jsstring = "code_unit list"

definition u :: "char \<Rightarrow> code_unit" where
  "u c = of_char c"

definition js :: "string \<Rightarrow> jsstring" where
  "js s = map u s"

text \<open>
  \<open>s.substring(start, end)\<close> and \<open>s.substring(start)\<close> for integer arguments: both indices
  are clamped to \<open>[0, length]\<close> and swapped when \<open>start > end\<close>.
\<close>

definition clamp_index :: "jsstring \<Rightarrow> int \<Rightarrow> nat" where
  "clamp_index s i = min (nat i) (length s)"

definition substring :: "jsstring \<Rightarrow> int \<Rightarrow> int \<Rightarrow> jsstring" where
  "substring s start stop =
     (let a = clamp_index s start; b = clamp_index s stop
      in take (max a b - min a b) (drop (min a b) s))"

definition substring_from :: "jsstring \<Rightarrow> int \<Rightarrow> jsstring" where
  "substring_from s start = drop (clamp_index s start) s"

section \<open>Token budget: \<open>estimateTokens\<close> and \<open>truncateContent\<close>\<close>

text \<open>
  \<open>Math.ceil(text.length / 4)\<close>.  The argument is anything with a \<open>length\<close> that counts
  elements (a string, or an array).  Division by 4 is exact in binary floating point, so
  the real-number quotient is what the code computes.
\<close>

definition estimateTokens :: "'a list \<Rightarrow> nat" where
  "estimateTokens text = nat \<lceil>real (length text) / 4\<rceil>"

definition marker :: jsstring where
  "marker = js ''\<newline>\<newline>[... middle section truncated for length ...]\<newline>\<newline>''"

text \<open>
  \<open>truncateContent(content, maxTokens)\<close> for a string and a non-negative integer budget (its
  only call passes the constant 22000).  \<open>Math.floor(maxChars * 0.6)\<close> and
  \<open>Math.floor(maxChars * 0.2)\<close> are taken over the reals: for an integer \<open>maxChars\<close> below
  \<open>2^50\<close> the rounding error of the double product is too small to move the floor.  The
  warning it logs has no effect on the result.
\<close>

definition truncateContent :: "jsstring \<Rightarrow> nat \<Rightarrow> jsstring" where
  "truncateContent content maxTokens =
     (let estimatedTokens = estimateTokens content in
      if estimatedTokens \<le> maxTokens then content
      else
        let charsPerToken = 4;
            maxChars = maxTokens * charsPerToken;
            firstPortion = \<lfloor>real maxChars * 0.6\<rfloor>;
            lastPortion = \<lfloor>real maxChars * 0.2\<rfloor>
        in substring content 0 firstPortion @ marker
           @ substring_from content (int (length content) - lastPortion))"

definition MAX_CONTENT_TOKENS :: nat where
  "MAX_CONTENT_TOKENS = 22000"

subsection \<open>Occurrences of a pattern in a string\<close>

definition occurs_at :: "'a list \<Rightarrow> 'a list \<Rightarrow> nat \<Rightarrow> bool" where
  "occurs_at pat s i \<longleftrightarrow> take (length pat) (drop i s) = pat"

definition occurrences :: "'a list \<Rightarrow> 'a list \<Rightarrow> nat" where
  "occurrences pat s = length (filter (occurs_at pat s) [0..<Suc (length s)])"

definition contains :: "'a list \<Rightarrow> 'a list \<Rightarrow> bool" where
  "contains s pat \<longleftrightarrow> (\<exists>i \<in> set [0..<Suc (length s)]. occurs_at pat s i)"

text \<open>The marker is its bracketed text between two pairs of line feeds.\<close>

definition marker_head :: jsstring where
  "marker_head = js ''\<newline>\<newline>''"

definition marker_core :: jsstring where
  "marker_core = js ''[... middle section truncated for length ...]''"

text \<open>A document that starts with the text of the marker itself.\<close>

definition repeated_marker :: jsstring where
  "repeated_marker = marker @ replicate 60 (u CHR ''x'')"

text \<open>A list of check boxes: it has opening brackets, and nothing of the marker.\<close>

definition checklist :: jsstring where
  "checklist = concat (replicate 11 (js ''- [ ] item''))"


section \<open>JSON values and \<open>JSON.parse\<close>\<close>

text \<open>
  The values \<open>JSON.parse\<close> can return.  A number keeps the text it was written with
  (its conversion to a double is a matter of the runtime, see below); an object is the
  list of its own properties in enumeration order.  \<open>undefined\<close> is not a JSON value:
  a value that may be \<open>undefined\<close> has type \<open>json option\<close>.
\<close>

datatype json =
    JNull
  | JBool bool
  | JNum jsstring
  | JStr jsstring
  | JArr "json list"
  | JObj "(jsstring \<times> json) list"

text \<open>
  The reference grammar of \<open>JSON.parse\<close>: four white-space characters; string literals
  with a backslash escape for the quote, the backslash, the slash, \<open>b f n r t\<close> and
  \<open>u\<close> with four hex digits, and no raw control character;
  numbers without leading zeros; the three literals; arrays and objects.
\<close>

definition is_json_ws :: "code_unit \<Rightarrow> bool" where
  "is_json_ws c \<longleftrightarrow> c = 0x20 \<or> c = 0x09 \<or> c = 0x0A \<or> c = 0x0D"

definition skip_ws :: "jsstring \<Rightarrow> jsstring" where
  "skip_ws s = dropWhile is_json_ws s"

definition is_digit :: "code_unit \<Rightarrow> bool" where
  "is_digit c \<longleftrightarrow> 0x30 \<le> c \<and> c \<le> 0x39"

definition hex_value :: "code_unit \<Rightarrow> code_unit option" where
  "hex_value c =
     (if 0x30 \<le> c \<and> c \<le> 0x39 then Some (c - 0x30)
      else if 0x41 \<le> c \<and> c \<le> 0x46 then Some (c - 0x37)
      else if 0x61 \<le> c \<and> c \<le> 0x66 then Some (c - 0x57)
      else None)"

definition unescape :: "code_unit \<Rightarrow> code_unit option" where
  "unescape e =
     (if e = 0x22 then Some 0x22
      else if e = 0x5C then Some 0x5C
      else if e = 0x2F then Some 0x2F
      else if e = 0x62 then Some 0x08
      else if e = 0x66 then Some 0x0C
      else if e = 0x6E then Some 0x0A
      else if e = 0x72 then Some 0x0D
      else if e = 0x74 then Some 0x09
      else None)"

definition hex4 :: "jsstring \<Rightarrow> code_unit option" where
  "hex4 hs =
     (case map hex_value hs of
        [Some a, Some b, Some c, Some d] \<Rightarrow> Some (a * 4096 + b * 256 + c * 16 + d)
      | _ \<Rightarrow> None)"

text \<open>
  The characters of a string literal behind its opening quote: the decoded string and
  the input behind the closing quote.
\<close>

fun parse_string_chars :: "jsstring \<Rightarrow> (jsstring \<times> jsstring) option" where
  "parse_string_chars [] = None"
| "parse_string_chars (c # cs) =
     (if c = 0x22 then Some ([], cs)
      else if c < 0x20 then None
      else if c = 0x5C then
        (case cs of
           [] \<Rightarrow> None
         | e # es \<Rightarrow>
             if e = 0x75 then
               (case hex4 (take 4 es) of
                  None \<Rightarrow> None
                | Some x \<Rightarrow> map_option (apfst ((#) x)) (parse_string_chars (drop 4 es)))
             else
               (case unescape e of
                  None \<Rightarrow> None
                | Some x \<Rightarrow> map_option (apfst ((#) x)) (parse_string_chars es)))
      else map_option (apfst ((#) c)) (parse_string_chars cs))"


text \<open>A number token; the lexeme is kept as written.\<close>

definition parse_digits :: "jsstring \<Rightarrow> (jsstring \<times> jsstring) option" where
  "parse_digits s =
     (if takeWhile is_digit s = [] then None
      else Some (takeWhile is_digit s, dropWhile is_digit s))"

definition parse_int_part :: "jsstring \<Rightarrow> (jsstring \<times> jsstring) option" where
  "parse_int_part s =
     (case s of
        [] \<Rightarrow> None
      | d # ds \<Rightarrow> if d = 0x30 then Some ([d], ds) else parse_digits s)"

definition parse_frac_part :: "jsstring \<Rightarrow> (jsstring \<times> jsstring) option" where
  "parse_frac_part s =
     (case s of
        [] \<Rightarrow> Some ([], s)
      | c # cs \<Rightarrow>
          if c = 0x2E then map_option (apfst ((#) c)) (parse_digits cs)
          else Some ([], s))"

definition parse_exp_part :: "jsstring \<Rightarrow> (jsstring \<times> jsstring) option" where
  "parse_exp_part s =
     (case s of
        [] \<Rightarrow> Some ([], s)
      | c # cs \<Rightarrow>
          if c = 0x65 \<or> c = 0x45 then
            (case cs of
               [] \<Rightarrow> None
             | g # gs \<Rightarrow>
                 if g = 0x2B \<or> g = 0x2D
                 then map_option (apfst (\<lambda>ds. c # g # ds)) (parse_digits gs)
                 else map_option (apfst ((#) c)) (parse_digits cs))
          else Some ([], s))"

definition parse_number :: "jsstring \<Rightarrow> (jsstring \<times> jsstring) option" where
  "parse_number s =
     (let (sign, s1) = (case s of [] \<Rightarrow> ([], s) | c # cs \<Rightarrow> if c = 0x2D then ([c], cs) else ([], s))
      in case parse_int_part s1 of
           None \<Rightarrow> None
         | Some (ip, s2) \<Rightarrow>
             (case parse_frac_part s2 of
                None \<Rightarrow> None
              | Some (fp, s3) \<Rightarrow>
                  (case parse_exp_part s3 of
                     None \<Rightarrow> None
                   | Some (ep, s4) \<Rightarrow> Some (sign @ ip @ fp @ ep, s4))))"

text \<open>
  Own properties of a parsed object.  \<open>JSON.parse\<close> creates them in source order; a
  repeated key overwrites the value and keeps its place.  Enumeration, which
  \<open>JSON.stringify\<close> follows, lists the array-index keys (canonical decimal numerals
  below \<open>2^32 - 1\<close>) first, in ascending order, then the other keys in creation order.
\<close>

definition decimal_value :: "jsstring \<Rightarrow> int" where
  "decimal_value ds = foldl (\<lambda>a c. 10 * a + uint (c - 0x30)) 0 ds"

definition canonical_int :: "jsstring \<Rightarrow> bool" where
  "canonical_int k \<longleftrightarrow> k \<noteq> [] \<and> list_all is_digit k \<and> (length k = 1 \<or> hd k \<noteq> 0x30)"

definition array_index :: "jsstring \<Rightarrow> int option" where
  "array_index k =
     (if canonical_int k \<and> decimal_value k < 4294967295 then Some (decimal_value k) else None)"

definition define_property :: "(jsstring \<times> json) list \<Rightarrow> jsstring \<times> json \<Rightarrow> (jsstring \<times> json) list" where
  "define_property props kv =
     (if fst kv \<in> set (map fst props)
      then map (\<lambda>p. if fst p = fst kv then kv else p) props
      else props @ [kv])"

definition own_property_order :: "(jsstring \<times> json) list \<Rightarrow> (jsstring \<times> json) list" where
  "own_property_order props =
     sort_key (\<lambda>p. the (array_index (fst p))) (filter (\<lambda>p. array_index (fst p) \<noteq> None) props)
     @ filter (\<lambda>p. array_index (fst p) = None) props"

definition make_object :: "(jsstring \<times> json) list \<Rightarrow> json" where
  "make_object members = JObj (own_property_order (foldl define_property [] members))"

text \<open>
  Recursive descent.  Each call passes on one unit less of fuel than it was given; a
  successful call returns the value and the input behind it.  \<open>parse_elements\<close> reads
  the elements of a non-empty array up to its closing bracket, \<open>parse_members\<close> the
  members of a non-empty object up to its closing brace.
\<close>

fun parse_value :: "nat \<Rightarrow> jsstring \<Rightarrow> (json \<times> jsstring) option"
  and parse_elements :: "nat \<Rightarrow> jsstring \<Rightarrow> (json list \<times> jsstring) option"
  and parse_members :: "nat \<Rightarrow> jsstring \<Rightarrow> ((jsstring \<times> json) list \<times> jsstring) option"
where
  "parse_value 0 s = None"
| "parse_value (Suc n) s =
     (case skip_ws s of
        [] \<Rightarrow> None
      | c # cs \<Rightarrow>
          if c = 0x7B then
            (case skip_ws cs of
               [] \<Rightarrow> None
             | d # ds \<Rightarrow>
                 if d = 0x7D then Some (JObj [], ds)
                 else map_option (apfst make_object) (parse_members n cs))
          else if c = 0x5B then
            (case skip_ws cs of
               [] \<Rightarrow> None
             | d # ds \<Rightarrow>
                 if d = 0x5D then Some (JArr [], ds)
                 else map_option (apfst JArr) (parse_elements n cs))
          else if c = 0x22 then map_option (apfst JStr) (parse_string_chars cs)
          else if take 4 (c # cs) = js ''true'' then Some (JBool True, drop 3 cs)
          else if take 5 (c # cs) = js ''false'' then Some (JBool False, drop 4 cs)
          else if take 4 (c # cs) = js ''null'' then Some (JNull, drop 3 cs)
          else if c = 0x2D \<or> is_digit c then map_option (apfst JNum) (parse_number (c # cs))
          else None)"
| "parse_elements 0 s = None"
| "parse_elements (Suc n) s =
     (case parse_value n s of
        None \<Rightarrow> None
      | Some (v, r) \<Rightarrow>
          (case skip_ws r of
             [] \<Rightarrow> None
           | c # cs \<Rightarrow>
               if c = 0x2C then map_option (apfst ((#) v)) (parse_elements n cs)
               else if c = 0x5D then Some ([v], cs)
               else None))"
| "parse_members 0 s = None"
| "parse_members (Suc n) s =
     (case skip_ws s of
        [] \<Rightarrow> None
      | q # ks \<Rightarrow>
          if q = 0x22 then
            (case parse_string_chars ks of
               None \<Rightarrow> None
             | Some (k, r) \<Rightarrow>
                 (case skip_ws r of
                    [] \<Rightarrow> None
                  | c # cs \<Rightarrow>
                      if c = 0x3A then
                        (case parse_value n cs of
                           None \<Rightarrow> None
                         | Some (v, r') \<Rightarrow>
                             (case skip_ws r' of
                                [] \<Rightarrow> None
                              | d # ds \<Rightarrow>
                                  if d = 0x2C then map_option (apfst ((#) (k, v))) (parse_members n ds)
                                  else if d = 0x7D then Some ([(k, v)], ds)
                                  else None))
                      else None))
          else None)"

text \<open>
  \<open>JSON.parse(s)\<close>: one value, surrounded by white space only.  \<open>None\<close> is the
  SyntaxError it throws.  Limits of the engine on nesting depth are outside the model.
\<close>

definition JSON_parse :: "jsstring \<Rightarrow> json option" where
  "JSON_parse s =
     (case parse_value (2 * length s + 2) s of
        None \<Rightarrow> None
      | Some (v, r) \<Rightarrow> if skip_ws r = [] then Some v else None)"


subsection \<open>Inside and outside of string literals\<close>

text \<open>
  A coarser reading of a text than the parser's, used to reason about it: code unit by
  code unit, whether the position is outside every string literal, inside one, or behind
  a backslash inside one.  A quote opens or closes a literal.  Outside a literal the
  grammar has no backslash and no letter \<open>d\<close>, with which the prefix of an event line
  begins; the reading is \<open>Invalid\<close> from there on.
  \<open>outside_run s r\<close>: \<open>r\<close> is what is left of \<open>s\<close> behind a part that is read from outside
  to outside.
\<close>

datatype lex_state = Outside | Inside | Escaped | Invalid

fun lex_step :: "lex_state \<Rightarrow> code_unit \<Rightarrow> lex_state" where
  "lex_step Outside c =
     (if c = 0x22 then Inside else if c = 0x5C \<or> c = 0x64 then Invalid else Outside)"
| "lex_step Inside c = (if c = 0x22 then Outside else if c = 0x5C then Escaped else Inside)"
| "lex_step Escaped c = Inside"
| "lex_step Invalid c = Invalid"

definition lex_scan :: "lex_state \<Rightarrow> jsstring \<Rightarrow> lex_state" where
  "lex_scan st s = foldl lex_step st s"

abbreviation outside_run :: "jsstring \<Rightarrow> jsstring \<Rightarrow> bool" where
  "outside_run s r \<equiv> \<exists>c. s = c @ r \<and> lex_scan Outside c = Outside"


section \<open>Runtime parameters\<close>

text \<open>
  What the source leaves to the JavaScript engine is a parameter of the model:
  \<^item> the double behind a number token: whether it is truthy, whether it is finite, and
    its \<open>ToString\<close>.  For a canonical decimal numeral of at most 15 digits without
    exponent (\<open>plain_decimal\<close>) these are known, the double prints as the token
    itself, and the parameters are not consulted;
  \<^item> \<open>length_exceeds\<close>: for an object that has an own \<open>length\<close> property of value \<open>v\<close>,
    whether \<open>Math.ceil(v / 4) > 22000\<close>, which goes through \<open>ToNumber\<close>;
  \<^item> the message and stack trace of a TypeError, which depend on the engine and on the
    place that throws.
  The places of the handler that can throw, in the order of the source: destructuring
  the parsed body (line 63), \<open>prompt.trim()\<close> (71), \<open>text.length\<close> in \<open>estimateTokens\<close>
  (84), \<open>content.substring\<close> in \<open>truncateContent\<close> (105), \<open>selectedText.trim()\<close> (134)
  and the conversion of the document to a string in the template literals (135, 138).
\<close>

datatype throw_site =
    Destructure_body
  | Prompt_trim
  | Markdown_length
  | Content_substring
  | SelectedText_trim
  | Template_markdown

record js_error =
  err_name :: jsstring
  err_message :: jsstring
  err_stack :: jsstring
  err_code :: "jsstring option"

record runtime =
  number_truthy :: "jsstring \<Rightarrow> bool"
  number_finite :: "jsstring \<Rightarrow> bool"
  number_text :: "jsstring \<Rightarrow> jsstring"
  length_exceeds :: "json \<Rightarrow> bool"
  diagnostics :: "throw_site \<Rightarrow> json option \<Rightarrow> jsstring \<times> jsstring"

definition type_error :: "runtime \<Rightarrow> throw_site \<Rightarrow> json option \<Rightarrow> js_error" where
  "type_error rt site v =
     \<lparr>err_name = js ''TypeError'',
      err_message = fst (diagnostics rt site v),
      err_stack = snd (diagnostics rt site v),
      err_code = None\<rparr>"

definition plain_decimal :: "jsstring \<Rightarrow> bool" where
  "plain_decimal tok \<longleftrightarrow>
     (let ip = takeWhile is_digit tok; r = dropWhile is_digit tok
      in canonical_int ip \<and>
         (case r of
            [] \<Rightarrow> length ip \<le> 15
          | c # fp \<Rightarrow> c = 0x2E \<and> fp \<noteq> [] \<and> list_all is_digit fp \<and> last fp \<noteq> 0x30
                     \<and> length fp \<le> 6 \<and> length ip + length fp \<le> 15))"

definition number_is_truthy :: "runtime \<Rightarrow> jsstring \<Rightarrow> bool" where
  "number_is_truthy rt tok = (if plain_decimal tok then tok \<noteq> js ''0'' else number_truthy rt tok)"

definition number_is_finite :: "runtime \<Rightarrow> jsstring \<Rightarrow> bool" where
  "number_is_finite rt tok = (plain_decimal tok \<or> number_finite rt tok)"

definition number_to_string :: "runtime \<Rightarrow> jsstring \<Rightarrow> jsstring" where
  "number_to_string rt tok = (if plain_decimal tok then tok else number_text rt tok)"

section \<open>Values: truthiness, property access, trimming\<close>

text \<open>
  \<open>ToBoolean\<close>; reading a property of a value that is neither \<open>null\<close> nor
  \<open>undefined\<close>, for the keys the source uses (\<open>prompt\<close>, \<open>markdown\<close>, \<open>selectedText\<close>,
  \<open>choices\<close>, \<open>0\<close>, \<open>delta\<close>, \<open>content\<close>: none is inherited, none is \<open>length\<close>);
  and the optional access \<open>v?.[k]\<close>.  An array or a string answers an index key, an
  object its own properties, a number or boolean nothing.
\<close>

fun truthy :: "runtime \<Rightarrow> json option \<Rightarrow> bool" where
  "truthy rt None = False"
| "truthy rt (Some JNull) = False"
| "truthy rt (Some (JBool b)) = b"
| "truthy rt (Some (JNum tok)) = number_is_truthy rt tok"
| "truthy rt (Some (JStr s)) = (s \<noteq> [])"
| "truthy rt (Some (JArr xs)) = True"
| "truthy rt (Some (JObj props)) = True"

definition element_at :: "'a list \<Rightarrow> jsstring \<Rightarrow> 'a option" where
  "element_at xs k =
     (case array_index k of
        None \<Rightarrow> None
      | Some i \<Rightarrow> if nat i < length xs then Some (xs ! nat i) else None)"

fun get_property :: "json \<Rightarrow> jsstring \<Rightarrow> json option" where
  "get_property (JObj props) k = map_of props k"
| "get_property (JArr xs) k = element_at xs k"
| "get_property (JStr s) k = map_option (\<lambda>c. JStr [c]) (element_at s k)"
| "get_property v k = None"

fun optional_get :: "json option \<Rightarrow> jsstring \<Rightarrow> json option" where
  "optional_get None k = None"
| "optional_get (Some JNull) k = None"
| "optional_get (Some v) k = get_property v k"

text \<open>
  \<open>String.prototype.trim\<close> removes white space and line terminators at both ends.
\<close>

definition is_js_ws :: "code_unit \<Rightarrow> bool" where
  "is_js_ws c \<longleftrightarrow>
     (0x09 \<le> c \<and> c \<le> 0x0D) \<or> c = 0x20 \<or> c = 0xA0 \<or> c = 0x1680
     \<or> (0x2000 \<le> c \<and> c \<le> 0x200A) \<or> c = 0x2028 \<or> c = 0x2029 \<or> c = 0x202F
     \<or> c = 0x205F \<or> c = 0x3000 \<or> c = 0xFEFF"

definition trim :: "jsstring \<Rightarrow> jsstring" where
  "trim s = rev (dropWhile is_js_ws (rev (dropWhile is_js_ws s)))"

definition starts_with :: "jsstring \<Rightarrow> jsstring \<Rightarrow> bool" where
  "starts_with s p \<longleftrightarrow> take (length p) s = p"

text \<open>
  Splitting at the line feed, as \<open>split\<close> does: the pieces between line feeds, one more
  than there are line feeds.
\<close>

fun split_nl :: "jsstring \<Rightarrow> jsstring list" where
  "split_nl [] = [[]]"
| "split_nl (c # cs) =
     (if c = 0x0A then [] # split_nl cs
      else (case split_nl cs of [] \<Rightarrow> [[c]] | l # ls \<Rightarrow> (c # l) # ls))"

section \<open>\<open>JSON.stringify\<close> and string conversion\<close>

text \<open>
  \<open>JSON.stringify\<close>.  A string is quoted with the short escapes, a \<open>u00xx\<close> escape for
  the other control characters and a \<open>udxxx\<close> escape for a surrogate without its partner; a number
  that is not finite prints as \<open>null\<close>; the properties of an object come in
  enumeration order.
\<close>

definition hex_digit :: "code_unit \<Rightarrow> code_unit" where
  "hex_digit d = (if d < 10 then 0x30 + d else 0x57 + d)"

definition unicode_escape :: "code_unit \<Rightarrow> jsstring" where
  "unicode_escape c =
     [0x5C, 0x75, hex_digit (c div 4096), hex_digit ((c div 256) mod 16),
      hex_digit ((c div 16) mod 16), hex_digit (c mod 16)]"

definition is_high_surrogate :: "code_unit \<Rightarrow> bool" where
  "is_high_surrogate c \<longleftrightarrow> 0xD800 \<le> c \<and> c \<le> 0xDBFF"

definition is_low_surrogate :: "code_unit \<Rightarrow> bool" where
  "is_low_surrogate c \<longleftrightarrow> 0xDC00 \<le> c \<and> c \<le> 0xDFFF"

fun quote_chars :: "jsstring \<Rightarrow> jsstring" where
  "quote_chars [] = []"
| "quote_chars (c # cs) =
     (if c = 0x22 then [0x5C, 0x22] @ quote_chars cs
      else if c = 0x5C then [0x5C, 0x5C] @ quote_chars cs
      else if c = 0x08 then [0x5C, 0x62] @ quote_chars cs
      else if c = 0x0C then [0x5C, 0x66] @ quote_chars cs
      else if c = 0x0A then [0x5C, 0x6E] @ quote_chars cs
      else if c = 0x0D then [0x5C, 0x72] @ quote_chars cs
      else if c = 0x09 then [0x5C, 0x74] @ quote_chars cs
      else if c < 0x20 then unicode_escape c @ quote_chars cs
      else if is_high_surrogate c then
        (case cs of
           [] \<Rightarrow> unicode_escape c
         | d # ds \<Rightarrow>
             if is_low_surrogate d then c # d # quote_chars ds
             else unicode_escape c @ quote_chars cs)
      else if is_low_surrogate c then unicode_escape c @ quote_chars cs
      else c # quote_chars cs)"

definition quote :: "jsstring \<Rightarrow> jsstring" where
  "quote s = [0x22] @ quote_chars s @ [0x22]"

fun join_with :: "jsstring \<Rightarrow> jsstring list \<Rightarrow> jsstring" where
  "join_with sep [] = []"
| "join_with sep [x] = x"
| "join_with sep (x # y # ys) = x @ sep @ join_with sep (y # ys)"

fun stringify :: "runtime \<Rightarrow> json \<Rightarrow> jsstring" where
  "stringify rt JNull = js ''null''"
| "stringify rt (JBool b) = (if b then js ''true'' else js ''false'')"
| "stringify rt (JNum tok) =
     (if number_is_finite rt tok then number_to_string rt tok else js ''null'')"
| "stringify rt (JStr s) = quote s"
| "stringify rt (JArr xs) = js ''['' @ join_with (js '','') (map (stringify rt) xs) @ js '']''"
| "stringify rt (JObj props) =
     js ''{'' @ join_with (js '','') (map (\<lambda>p. quote (fst p) @ js '':'' @ stringify rt (snd p)) props)
     @ js ''}''"

text \<open>
  The conversion to a string inside a template literal.  An array joins the
  conversions of its elements with commas, with nothing for \<open>null\<close>; an object prints
  as \<open>[object Object]\<close> unless it has an own \<open>toString\<close> property, which is not
  callable and makes the conversion throw (\<open>None\<close>).
\<close>

fun to_display :: "runtime \<Rightarrow> json \<Rightarrow> jsstring option" where
  "to_display rt JNull = Some (js ''null'')"
| "to_display rt (JBool b) = Some (if b then js ''true'' else js ''false'')"
| "to_display rt (JNum tok) = Some (number_to_string rt tok)"
| "to_display rt (JStr s) = Some s"
| "to_display rt (JArr xs) =
     map_option (join_with (js '',''))
       (those (map (\<lambda>x. if x = JNull then Some [] else to_display rt x) xs))"
| "to_display rt (JObj props) =
     (if js ''toString'' \<in> set (map fst props) then None else Some (js ''[object Object]''))"

text \<open>
  An object literal of the source whose fields may be \<open>undefined\<close>: \<open>JSON.stringify\<close>
  leaves those out.
\<close>

definition object_literal :: "(jsstring \<times> json option) list \<Rightarrow> json" where
  "object_literal fs = JObj (List.map_filter (\<lambda>f. map_option (Pair (fst f)) (snd f)) fs)"


section \<open>The stream reframer\<close>

text \<open>
  Lines 225-259.  A chunk stands for \<open>chunk.toString()\<close>, the decoded text of the
  buffer.  The two frames the reframer appends:
\<close>

definition content_frame :: "runtime \<Rightarrow> json \<Rightarrow> jsstring" where
  "content_frame rt content =
     js ''data: '' @ stringify rt (object_literal [(js ''content'', Some content)])
     @ js ''\<newline>\<newline>''"

definition done_frame :: jsstring where
  "done_frame = js ''data: [DONE]\<newline>\<newline>''"

text \<open>
  \<open>parsed.choices?.[0]?.delta?.content\<close>.  Reading \<open>choices\<close> off \<open>null\<close> throws a
  TypeError (\<open>None\<close>); every later step is an optional access.
\<close>

definition delta_content :: "json \<Rightarrow> json option option" where
  "delta_content parsed =
     (if parsed = JNull then None
      else Some (optional_get (optional_get (optional_get
                  (get_property parsed (js ''choices'')) (js ''0'')) (js ''delta'')) (js ''content'')))"

text \<open>The body of the loop over the lines of a chunk; both \<open>catch\<close>ed failures leave the buffer as it is.\<close>

definition process_line :: "runtime \<Rightarrow> jsstring \<Rightarrow> jsstring \<Rightarrow> jsstring" where
  "process_line rt streamResponse line =
     (if starts_with line (js ''data: '') then
        let data = trim (drop 6 line) in
        if data = js ''[DONE]'' then streamResponse @ done_frame
        else if data \<noteq> [] then
          (case JSON_parse data of
             None \<Rightarrow> streamResponse
           | Some parsed \<Rightarrow>
               (case delta_content parsed of
                  None \<Rightarrow> streamResponse
                | Some content \<Rightarrow>
                    (case content of
                       None \<Rightarrow> streamResponse
                     | Some c \<Rightarrow>
                         if truthy rt content then streamResponse @ content_frame rt c
                         else streamResponse)))
        else streamResponse
      else streamResponse)"

text \<open>
  The \<open>data\<close> callback of a 200 response, and the buffer after a sequence of chunks.
  The chunk counter is only logged; it is kept in the state of the exchange below.
\<close>

definition on_data :: "runtime \<Rightarrow> jsstring \<Rightarrow> jsstring \<Rightarrow> jsstring" where
  "on_data rt streamResponse chunk = foldl (process_line rt) streamResponse (split_nl chunk)"

definition reframe :: "runtime \<Rightarrow> jsstring list \<Rightarrow> jsstring" where
  "reframe rt chunks = foldl (on_data rt) [] chunks"

section \<open>Requests, responses and the upstream exchange\<close>

text \<open>
  The request object of the trigger (only \<open>httpMethod\<close> and \<open>body\<close> are read, the
  other two are logged), the process environment, the response object, and what the
  handler hands to \<open>https.request\<close> and \<open>req.write\<close>.  \<open>None\<close> for the body is an
  absent or \<open>null\<close> body.
\<close>

record event =
  httpMethod :: "jsstring option"
  path :: "jsstring option"
  request_headers :: "(jsstring \<times> jsstring) list"
  body_of :: "jsstring option"

record env =
  OPENAI_API_KEY :: "jsstring option"

record response =
  statusCode :: nat
  headers :: "(jsstring \<times> jsstring) list"
  body :: jsstring

record http_request =
  hostname :: jsstring
  request_path :: jsstring
  http_method :: jsstring
  outbound_headers :: "(jsstring \<times> jsstring) list"
  payload :: jsstring

text \<open>
  What the network does after the request was issued is an input of the model: whether
  \<open>req.write\<close> throws, and the events that Node then emits, in order.  The outcome of an
  invocation is the list of outbound requests it issued and the response object it
  returned, if the promise was ever resolved.
\<close>

datatype net_event =
    Response nat
  | Data jsstring
  | End
  | Response_error js_error
  | Request_error js_error
  | Timeout

record upstream =
  write_error :: "js_error option"
  events :: "net_event list"

record outcome =
  sent :: "http_request list"
  reply :: "response option"

text \<open>
  The response objects of the source.  Lines 36-44 (preflight), 53-60, 73-80, 164-174,
  206-217, 269-277, 286-297, 307-319, 338-348 and 358-370.
\<close>

definition json_headers :: "(jsstring \<times> jsstring) list" where
  "json_headers =
     [(js ''Content-Type'', js ''application/json''),
      (js ''Access-Control-Allow-Origin'', js ''*'')]"

fun decimal :: "nat \<Rightarrow> jsstring" where
  "decimal n = (if n < 10 then [0x30 + of_nat n] else decimal (n div 10) @ [0x30 + of_nat (n mod 10)])"

definition preflight_response :: response where
  "preflight_response =
     \<lparr>statusCode = 200,
      headers = [(js ''Access-Control-Allow-Origin'', js ''*''),
                 (js ''Access-Control-Allow-Methods'', js ''POST, OPTIONS''),
                 (js ''Access-Control-Allow-Headers'', js ''Content-Type, Authorization'')],
      body = []\<rparr>"

definition error_response :: "runtime \<Rightarrow> nat \<Rightarrow> (jsstring \<times> json option) list \<Rightarrow> response" where
  "error_response rt code fs =
     \<lparr>statusCode = code, headers = json_headers, body = stringify rt (object_literal fs)\<rparr>"

definition invalid_json_response :: "runtime \<Rightarrow> response" where
  "invalid_json_response rt =
     error_response rt 400 [(js ''error'', Some (JStr (js ''Invalid JSON in request body'')))]"

definition prompt_required_response :: "runtime \<Rightarrow> response" where
  "prompt_required_response rt =
     error_response rt 400 [(js ''error'', Some (JStr (js ''Prompt is required'')))]"

definition configuration_error_response :: "runtime \<Rightarrow> response" where
  "configuration_error_response rt =
     error_response rt 500
       [(js ''error'', Some (JStr (js ''Server configuration error''))),
        (js ''details'', Some (JStr (js ''API key not configured'')))]"

definition upstream_status_response :: "runtime \<Rightarrow> nat \<Rightarrow> jsstring \<Rightarrow> response" where
  "upstream_status_response rt code errorBody =
     error_response rt code
       [(js ''error'', Some (JStr (js ''OpenAI API error''))),
        (js ''statusCode'', Some (JNum (decimal code))),
        (js ''details'', Some (JStr errorBody))]"

definition success_response :: "jsstring \<Rightarrow> response" where
  "success_response streamResponse =
     \<lparr>statusCode = 200,
      headers = [(js ''Content-Type'', js ''text/event-stream''),
                 (js ''Access-Control-Allow-Origin'', js ''*''),
                 (js ''Cache-Control'', js ''no-cache'')],
      body = streamResponse\<rparr>"

definition stream_error_response :: "runtime \<Rightarrow> js_error \<Rightarrow> response" where
  "stream_error_response rt err =
     error_response rt 500
       [(js ''error'', Some (JStr (js ''OpenAI API error''))),
        (js ''details'', Some (JStr (err_message err))),
        (js ''errorName'', Some (JStr (err_name err)))]"

definition request_failed_response :: "runtime \<Rightarrow> js_error \<Rightarrow> response" where
  "request_failed_response rt err =
     error_response rt 500
       [(js ''error'', Some (JStr (js ''Request failed''))),
        (js ''details'', Some (JStr (err_message err))),
        (js ''errorName'', Some (JStr (err_name err))),
        (js ''errorCode'', map_option JStr (err_code err))]"

definition write_failed_response :: "runtime \<Rightarrow> js_error \<Rightarrow> response" where
  "write_failed_response rt writeError =
     error_response rt 500
       [(js ''error'', Some (JStr (js ''Failed to send request''))),
        (js ''details'', Some (JStr (err_message writeError)))]"

definition internal_error_response :: "runtime \<Rightarrow> js_error \<Rightarrow> response" where
  "internal_error_response rt error =
     error_response rt 500
       [(js ''error'', Some (JStr (js ''Internal server error''))),
        (js ''details'', Some (JStr (err_message error))),
        (js ''errorName'', Some (JStr (err_name error))),
        (js ''stack'', Some (JStr (err_stack error)))]"

subsection \<open>The callbacks of the outbound request\<close>

text \<open>
  The promise and its callbacks (lines 177-350) as a state machine.  Before the response
  arrives only the request has listeners; a response with a status other than 200 is
  drained into \<open>errorBody\<close> (\<open>Draining\<close>) and has no \<open>error\<close> listener, so an error
  event on it is an uncaught exception (\<open>Crashed\<close>); a 200 response is reframed
  (\<open>Streaming\<close>).  The first \<open>resolve\<close> settles the promise and later calls change
  nothing.  The \<open>timeout\<close> listener only destroys the request; what Node emits after
  that are further events.
\<close>

datatype exchange =
    Awaiting
  | Draining nat jsstring
  | Streaming jsstring nat
  | Settled response
  | Crashed

fun on_event :: "runtime \<Rightarrow> exchange \<Rightarrow> net_event \<Rightarrow> exchange" where
  "on_event rt (Settled r) e = Settled r"
| "on_event rt Crashed e = Crashed"
| "on_event rt st (Request_error err) = Settled (request_failed_response rt err)"
| "on_event rt st Timeout = st"
| "on_event rt Awaiting (Response code) =
     (if code \<noteq> 200 then Draining code [] else Streaming [] 0)"
| "on_event rt Awaiting e = Awaiting"
| "on_event rt (Draining code errorBody) (Data chunk) = Draining code (errorBody @ chunk)"
| "on_event rt (Draining code errorBody) End =
     Settled (upstream_status_response rt code errorBody)"
| "on_event rt (Draining code errorBody) (Response_error err) = Crashed"
| "on_event rt (Draining code errorBody) (Response c) = Draining code errorBody"
| "on_event rt (Streaming streamResponse chunkCount) (Data chunk) =
     Streaming (on_data rt streamResponse chunk) (chunkCount + 1)"
| "on_event rt (Streaming streamResponse chunkCount) End =
     Settled (success_response streamResponse)"
| "on_event rt (Streaming streamResponse chunkCount) (Response_error err) =
     Settled (stream_error_response rt err)"
| "on_event rt (Streaming streamResponse chunkCount) (Response c) =
     Streaming streamResponse chunkCount"

definition settled :: "exchange \<Rightarrow> response option" where
  "settled st = (case st of Settled r \<Rightarrow> Some r | _ \<Rightarrow> None)"

definition exchange_result :: "runtime \<Rightarrow> upstream \<Rightarrow> response option" where
  "exchange_result rt up =
     (case write_error up of
        Some writeError \<Rightarrow> Some (write_failed_response rt writeError)
      | None \<Rightarrow> settled (foldl (on_event rt) Awaiting (events up)))"


section \<open>The handler\<close>

text \<open>
  \<open>v.trim()\<close> for a truthy \<open>v\<close>: only a string has a callable \<open>trim\<close>; on any other value
  the call throws a TypeError.
\<close>

definition call_trim :: "runtime \<Rightarrow> throw_site \<Rightarrow> json option \<Rightarrow> js_error + jsstring" where
  "call_trim rt site v =
     (case v of
        Some (JStr s) \<Rightarrow> Inr (trim s)
      | _ \<Rightarrow> Inl (type_error rt site v))"

text \<open>
  \<open>estimateTokens(markdown)\<close>, the comparison with \<open>MAX_CONTENT_TOKENS\<close> and the call of
  \<open>truncateContent\<close> on a value of any JSON type.  \<open>undefined\<close> and \<open>null\<close> have no
  \<open>length\<close> (TypeError); a number or boolean has \<open>length\<close> \<open>undefined\<close>, so the estimate
  is \<open>NaN\<close> and the comparison false; an array counts its elements and has no
  \<open>substring\<close>; an object is measured by its own \<open>length\<close> property, if any.
\<close>

definition process_markdown :: "runtime \<Rightarrow> json option \<Rightarrow> js_error + json" where
  "process_markdown rt markdown =
     (case markdown of
        None \<Rightarrow> Inl (type_error rt Markdown_length markdown)
      | Some JNull \<Rightarrow> Inl (type_error rt Markdown_length markdown)
      | Some (JStr s) \<Rightarrow>
          Inr (JStr (if estimateTokens s > MAX_CONTENT_TOKENS
                     then truncateContent s MAX_CONTENT_TOKENS else s))
      | Some (JArr xs) \<Rightarrow>
          if estimateTokens xs > MAX_CONTENT_TOKENS
          then Inl (type_error rt Content_substring markdown)
          else Inr (JArr xs)
      | Some (JObj props) \<Rightarrow>
          (case map_of props (js ''length'') of
             None \<Rightarrow> Inr (JObj props)
           | Some l \<Rightarrow>
               if length_exceeds rt l then Inl (type_error rt Content_substring markdown)
               else Inr (JObj props))
      | Some v \<Rightarrow> Inr v)"

text \<open>
  Lines 131-152: the two messages and the payload.
\<close>

definition systemPrompt :: jsstring where
  "systemPrompt = js ''You are an AI writing assistant that helps edit and improve text.''"

definition selection_prompt :: "jsstring \<Rightarrow> jsstring \<Rightarrow> jsstring \<Rightarrow> jsstring" where
  \<open>selection_prompt selectedText prompt processedMarkdown =
     js ''Edit the selected text: "'' @ selectedText
     @ js ''"\<newline>\<newline>User request: '' @ prompt
     @ js ''\<newline>\<newline>Full document context: '' @ processedMarkdown\<close>

definition document_prompt :: "jsstring \<Rightarrow> jsstring \<Rightarrow> jsstring" where
  "document_prompt prompt processedMarkdown =
     js ''Edit this document based on the request: '' @ prompt
     @ js ''\<newline>\<newline>Document: '' @ processedMarkdown"

definition build_user_prompt ::
    "runtime \<Rightarrow> jsstring \<Rightarrow> json option \<Rightarrow> json \<Rightarrow> js_error + jsstring" where
  "build_user_prompt rt prompt selectedText processedMarkdown =
     (case (if truthy rt selectedText
            then map_sum id (\<lambda>t. t \<noteq> []) (call_trim rt SelectedText_trim selectedText)
            else Inr False) of
        Inl e \<Rightarrow> Inl e
      | Inr selection \<Rightarrow>
          (case to_display rt processedMarkdown of
             None \<Rightarrow> Inl (type_error rt Template_markdown (Some processedMarkdown))
           | Some md \<Rightarrow>
               if selection
               then (case selectedText of
                       Some (JStr sel) \<Rightarrow> Inr (selection_prompt sel prompt md)
                     | _ \<Rightarrow> Inl (type_error rt SelectedText_trim selectedText))
               else Inr (document_prompt prompt md)))"

definition payload_object :: "jsstring \<Rightarrow> json" where
  "payload_object userPrompt =
     object_literal
       [(js ''model'', Some (JStr (js ''gpt-4o''))),
        (js ''messages'', Some (JArr
           [object_literal [(js ''role'', Some (JStr (js ''system''))),
                            (js ''content'', Some (JStr systemPrompt))],
            object_literal [(js ''role'', Some (JStr (js ''user''))),
                            (js ''content'', Some (JStr userPrompt))]])),
        (js ''stream'', Some (JBool True)),
        (js ''max_tokens'', Some (JNum (js ''4000''))),
        (js ''temperature'', Some (JNum (js ''0.3'')))]"

definition outbound_request :: "jsstring \<Rightarrow> jsstring \<Rightarrow> http_request" where
  "outbound_request key bodyPayload =
     \<lparr>hostname = js ''api.openai.com'',
      request_path = js ''/v1/chat/completions'',
      http_method = js ''POST'',
      outbound_headers = [(js ''Content-Type'', js ''application/json''),
                          (js ''Authorization'', js ''Bearer '' @ key)],
      payload = bodyPayload\<rparr>"

datatype early = Respond response | Proceed http_request

text \<open>\<open>event.body || '{}'\<close>: an absent, \<open>null\<close> or empty body is replaced by \<open>'{}'\<close>.\<close>

definition body_or_default :: "event \<Rightarrow> jsstring" where
  "body_or_default ev =
     (case body_of ev of
        None \<Rightarrow> js ''{}''
      | Some b \<Rightarrow> if b = [] then js ''{}'' else b)"

text \<open>
  The \<open>try\<close> block up to the creation of the promise: \<open>Inl\<close> is an exception on its way
  to the outer \<open>catch\<close>, \<open>Respond\<close> an early \<open>return\<close>, \<open>Proceed\<close> the outbound request
  that the promise will issue.
\<close>

definition handler_try :: "runtime \<Rightarrow> env \<Rightarrow> event \<Rightarrow> js_error + early" where
  "handler_try rt environment ev =
     (case JSON_parse (body_or_default ev) of
        None \<Rightarrow> Inr (Respond (invalid_json_response rt))
      | Some parsedBody \<Rightarrow>
          if parsedBody = JNull then Inl (type_error rt Destructure_body (Some parsedBody))
          else
            let prompt = get_property parsedBody (js ''prompt'');
                markdown = get_property parsedBody (js ''markdown'');
                selectedText = get_property parsedBody (js ''selectedText'')
            in
            if \<not> truthy rt prompt then Inr (Respond (prompt_required_response rt))
            else
              (case call_trim rt Prompt_trim prompt of
                 Inl e \<Rightarrow> Inl e
               | Inr trimmed \<Rightarrow>
                   if trimmed = [] then Inr (Respond (prompt_required_response rt))
                   else
                     (case process_markdown rt markdown of
                        Inl e \<Rightarrow> Inl e
                      | Inr processedMarkdown \<Rightarrow>
                          (case build_user_prompt rt
                                  (case prompt of Some (JStr p) \<Rightarrow> p | _ \<Rightarrow> [])
                                  selectedText processedMarkdown of
                             Inl e \<Rightarrow> Inl e
                           | Inr userPrompt \<Rightarrow>
                               (case OPENAI_API_KEY environment of
                                  None \<Rightarrow> Inr (Respond (configuration_error_response rt))
                                | Some key \<Rightarrow>
                                    if key = [] then Inr (Respond (configuration_error_response rt))
                                    else Inr (Proceed (outbound_request key
                                           (stringify rt (payload_object userPrompt)))))))))"

text \<open>
  The handler: the preflight guard (lines 34-45), the \<open>try\<close> block, the outer
  \<open>catch\<close> (352-371) and the promise.  Logging has no effect on the result and is left
  out.  \<open>https.request\<close> itself is taken not to throw.
\<close>

definition handler :: "runtime \<Rightarrow> env \<Rightarrow> event \<Rightarrow> upstream \<Rightarrow> outcome" where
  "handler rt environment ev up =
     (if httpMethod ev = Some (js ''OPTIONS'')
      then \<lparr>sent = [], reply = Some preflight_response\<rparr>
      else
        (case handler_try rt environment ev of
           Inl error \<Rightarrow> \<lparr>sent = [], reply = Some (internal_error_response rt error)\<rparr>
         | Inr (Respond r) \<Rightarrow> \<lparr>sent = [], reply = Some r\<rparr>
         | Inr (Proceed req) \<Rightarrow> \<lparr>sent = [req], reply = exchange_result rt up\<rparr>))"

section \<open>Sample inputs\<close>

text \<open>The two upstream lines of the documented example, and the frames they produce.\<close>

definition hi_line :: jsstring where
  \<open>hi_line = js ''data: {"choices":[{"delta":{"content":"hi"}}]}''\<close>

definition done_line :: jsstring where
  "done_line = js ''data: [DONE]''"

definition hi_frame :: jsstring where
  \<open>hi_frame = js ''data: {"content":"hi"}\<newline>\<newline>''\<close>

text \<open>
  A runtime, a request, an environment and an upstream exchange at which the general
  statements are instantiated.
\<close>

definition sample_runtime :: runtime where
  "sample_runtime =
     \<lparr>number_truthy = (\<lambda>tok. True),
      number_finite = (\<lambda>tok. True),
      number_text = (\<lambda>tok. tok),
      length_exceeds = (\<lambda>v. False),
      diagnostics = (\<lambda>site v. (js ''Cannot read properties of undefined'',
                                 js ''TypeError: Cannot read properties of undefined''))\<rparr>"

definition post_event :: "jsstring \<Rightarrow> event" where
  "post_event b =
     \<lparr>httpMethod = Some (js ''POST''), path = Some (js ''/edit''), request_headers = [],
      body_of = Some b\<rparr>"

definition sample_environment :: env where
  "sample_environment = \<lparr>OPENAI_API_KEY = Some (js ''sk-test'')\<rparr>"

definition sample_body :: jsstring where
  \<open>sample_body = js ''{"prompt":"Fix typos","markdown":"Helo world"}''\<close>

definition success_stream :: "jsstring list \<Rightarrow> upstream" where
  "success_stream chunks = \<lparr>write_error = None, events = Response 200 # map Data chunks @ [End]\<rparr>"

definition hi_done_chunk :: jsstring where
  "hi_done_chunk = hi_line @ js ''\<newline>\<newline>'' @ done_line @ js ''\<newline>\<newline>''"

definition hi_done_buffer :: jsstring where
  \<open>hi_done_buffer = js ''data: {"content":"hi"}\<newline>\<newline>data: [DONE]\<newline>\<newline>''\<close>


text \<open>
  The rest of the documented example when the upstream ends its lines with a carriage
  return and a line feed, after a first chunk that stops right behind the content line.
\<close>

definition crlf_tail :: jsstring where
  "crlf_tail = [0x0D, 0x0A, 0x0D, 0x0A] @ done_line @ [0x0D, 0x0A, 0x0D, 0x0A]"

text \<open>
  A content line whose content is itself \<open>data: 1\<close>: cut behind the opening quote of the
  content, its second piece begins with the prefix of an event line.
\<close>

definition nested_line :: jsstring where
  \<open>nested_line = js ''data: {"choices":[{"delta":{"content":"data: 1"}}]}''\<close>


section \<open>Cross-origin header and further sample inputs\<close>

definition allow_origin :: jsstring where
  "allow_origin = js ''Access-Control-Allow-Origin''"

definition allows_any_origin :: "response \<Rightarrow> bool" where
  "allows_any_origin r \<longleftrightarrow> map_of (headers r) allow_origin = Some (js ''*'')"

definition idle_upstream :: upstream where
  "idle_upstream = \<lparr>write_error = None, events = []\<rparr>"

definition options_event :: "jsstring option \<Rightarrow> event" where
  "options_event b =
     \<lparr>httpMethod = Some (js ''OPTIONS''), path = Some (js ''/edit''), request_headers = [],
      body_of = b\<rparr>"

definition no_credential :: env where
  "no_credential = \<lparr>OPENAI_API_KEY = None\<rparr>"

definition prompt_only_body :: jsstring where
  \<open>prompt_only_body = js ''{"prompt":"Fix typos"}''\<close>

definition blank_prompt_body :: jsstring where
  \<open>blank_prompt_body = js ''{"prompt":"   "}''\<close>

definition rejected_upstream :: upstream where
  "rejected_upstream =
     \<lparr>write_error = None, events = [Response 401, Data (js ''denied''), End]\<rparr>"

definition settled_open :: "exchange \<Rightarrow> bool" where
  "settled_open st \<longleftrightarrow> (\<forall>r. st = Settled r \<longrightarrow> allows_any_origin r)"

definition bodyless_post :: event where
  "bodyless_post =
     \<lparr>httpMethod = Some (js ''POST''), path = Some (js ''/edit''), request_headers = [],
      body_of = None\<rparr>"

section \<open>Properties of the parser: consumption and fuel\<close>

text \<open>
  Every successful parse consumes at least one code unit, so a call chain is never longer
  than twice the input plus two: the fuel that \<open>JSON_parse\<close> supplies is enough, more
  fuel never changes a result, and \<open>None\<close> always stands for a syntax error.
\<close>

lemma skip_ws_length: "length (skip_ws s) \<le> length s"
  by (simp add: skip_ws_def length_dropWhile_le)

lemma skip_ws_Cons_length: "skip_ws s = c # cs \<Longrightarrow> length cs < length s"
  using skip_ws_length [of s] by simp

lemma parse_string_chars_length:
  "parse_string_chars s = Some (x, r) \<Longrightarrow> length r < length s"
proof (induction s arbitrary: x r rule: parse_string_chars.induct)
  case 1
  then show ?case by simp
next
  case (2 c cs)
  show ?case
  proof (cases "c = 0x22")
    case True
    then show ?thesis using "2.prems" by simp
  next
    case nq: False
    show ?thesis
    proof (cases "c < 0x20")
      case True
      then show ?thesis using "2.prems" nq by simp
    next
      case nc: False
      show ?thesis
      proof (cases "c = 0x5C")
        case False
        then obtain y where "parse_string_chars cs = Some (y, r)"
          using "2.prems" nq nc by (auto split: option.splits)
        then have "length r < length cs" using "2.IH"(3) nq nc False by blast
        then show ?thesis by simp
      next
        case bs: True
        show ?thesis
        proof (cases cs)
          case Nil
          then show ?thesis using "2.prems" nq nc bs by simp
        next
          case (Cons e es)
          show ?thesis
          proof (cases "e = 0x75")
            case True
            then obtain h y where h: "hex4 (take 4 es) = Some h"
              and y: "parse_string_chars (drop 4 es) = Some (y, r)"
              using "2.prems" nq nc bs Cons by (auto split: option.splits)
            have "length r < length (drop 4 es)"
              using "2.IH"(1) [OF nq nc bs Cons True h y] .
            then show ?thesis using Cons by simp
          next
            case False
            then obtain h y where h: "unescape e = Some h"
              and y: "parse_string_chars es = Some (y, r)"
              using "2.prems" nq nc bs Cons by (auto split: option.splits)
            have "length r < length es"
              using "2.IH"(2) [OF nq nc bs Cons False h y] .
            then show ?thesis using Cons by simp
          qed
        qed
      qed
    qed
  qed
qed

lemma parse_digits_length: "parse_digits s = Some (x, r) \<Longrightarrow> length r < length s"
proof -
  assume a: "parse_digits s = Some (x, r)"
  then have ne: "takeWhile is_digit s \<noteq> []" and r: "r = dropWhile is_digit s"
    by (auto simp: parse_digits_def split: if_splits)
  have "length (takeWhile is_digit s) + length (dropWhile is_digit s) = length s"
    by (metis length_append takeWhile_dropWhile_id)
  then show ?thesis using ne r by (cases "takeWhile is_digit s") auto
qed

lemma parse_int_part_length: "parse_int_part s = Some (x, r) \<Longrightarrow> length r < length s"
  using parse_digits_length [of s x r]
  by (auto simp: parse_int_part_def split: list.splits if_splits)

lemma parse_frac_part_length: "parse_frac_part s = Some (x, r) \<Longrightarrow> length r \<le> length s"
  by (auto simp: parse_frac_part_def split: list.splits if_splits dest!: parse_digits_length)

lemma parse_exp_part_length: "parse_exp_part s = Some (x, r) \<Longrightarrow> length r \<le> length s"
  by (auto simp: parse_exp_part_def split: list.splits if_splits dest!: parse_digits_length)

lemma parse_number_length:
  assumes "parse_number s = Some (x, r)"
  shows "length r < length s"
proof -
  define s1 where "s1 = (case s of [] \<Rightarrow> s | c # cs \<Rightarrow> if c = 0x2D then cs else s)"
  have s1: "length s1 \<le> length s" by (auto simp: s1_def split: list.splits)
  obtain ip s2 fp s3 ep where
    a: "parse_int_part s1 = Some (ip, s2)" and b: "parse_frac_part s2 = Some (fp, s3)"
    and c: "parse_exp_part s3 = Some (ep, r)"
    using assms unfolding parse_number_def s1_def
    by (auto simp: Let_def split: list.splits if_splits option.splits)
  show ?thesis
    using parse_int_part_length [OF a] parse_frac_part_length [OF b]
      parse_exp_part_length [OF c] s1 by linarith
qed


lemma drop_length_le: "length (drop k xs) \<le> length xs"
  by simp

lemma parse_value_Suc_length:
  assumes M: "\<And>s ms r. parse_members n s = Some (ms, r) \<Longrightarrow> length r < length s"
    and E: "\<And>s vs r. parse_elements n s = Some (vs, r) \<Longrightarrow> length r < length s"
    and p: "parse_value (Suc n) s = Some (v, r)"
  shows "length r < length s"
proof (cases "skip_ws s")
  case Nil
  then show ?thesis using p by simp
next
  case (Cons c cs)
  have cs: "length cs < length s" by (rule skip_ws_Cons_length [OF Cons])
  have ccs: "length (c # cs) \<le> length s" using cs by simp
  show ?thesis
  proof (cases "c = 0x7B")
    case True
    show ?thesis
    proof (cases "skip_ws cs")
      case Nil
      then show ?thesis using p Cons True by simp
    next
      case inner: (Cons d ds)
      have ds: "length ds < length cs" by (rule skip_ws_Cons_length [OF inner])
      show ?thesis
      proof (cases "d = 0x7D")
        case True
        then have "r = ds" using p Cons \<open>c = 0x7B\<close> inner by simp
        then show ?thesis using ds cs by simp
      next
        case False
        then obtain ms where "parse_members n cs = Some (ms, r)"
          using p Cons \<open>c = 0x7B\<close> inner by auto
        then have "length r < length cs" by (rule M)
        then show ?thesis using cs by simp
      qed
    qed
  next
    case nb: False
    show ?thesis
    proof (cases "c = 0x5B")
      case True
      show ?thesis
      proof (cases "skip_ws cs")
        case Nil
        then show ?thesis using p Cons nb True by simp
      next
        case inner: (Cons d ds)
        have ds: "length ds < length cs" by (rule skip_ws_Cons_length [OF inner])
        show ?thesis
        proof (cases "d = 0x5D")
          case True
          then have "r = ds" using p Cons nb \<open>c = 0x5B\<close> inner by simp
          then show ?thesis using ds cs by simp
        next
          case False
          then obtain vs where "parse_elements n cs = Some (vs, r)"
            using p Cons nb \<open>c = 0x5B\<close> inner by auto
          then have "length r < length cs" by (rule E)
          then show ?thesis using cs by simp
        qed
      qed
    next
      case nk: False
      show ?thesis
      proof (cases "c = 0x22")
        case True
        then obtain x where "parse_string_chars cs = Some (x, r)"
          using p Cons nb nk by auto
        then have "length r < length cs" by (rule parse_string_chars_length)
        then show ?thesis using cs by simp
      next
        case nq: False
        have "r = drop 3 cs \<or> r = drop 4 cs \<or> (\<exists>x. parse_number (c # cs) = Some (x, r))"
          using p Cons nb nk nq by (auto split: if_splits)
        then show ?thesis
        proof (elim disjE exE)
          assume "r = drop 3 cs"
          then show ?thesis using cs drop_length_le [of 3 cs] by simp
        next
          assume "r = drop 4 cs"
          then show ?thesis using cs drop_length_le [of 4 cs] by simp
        next
          fix x
          assume "parse_number (c # cs) = Some (x, r)"
          then have "length r < length (c # cs)" by (rule parse_number_length)
          then show ?thesis using ccs by simp
        qed
      qed
    qed
  qed
qed

lemma parse_elements_Suc_length:
  assumes V: "\<And>s v r. parse_value n s = Some (v, r) \<Longrightarrow> length r < length s"
    and E: "\<And>s vs r. parse_elements n s = Some (vs, r) \<Longrightarrow> length r < length s"
    and p: "parse_elements (Suc n) s = Some (vs, r)"
  shows "length r < length s"
proof (cases "parse_value n s")
  case None
  then show ?thesis using p by simp
next
  case (Some a)
  obtain v r1 where a: "a = (v, r1)" by (cases a)
  have r1: "length r1 < length s" using V Some a by blast
  show ?thesis
  proof (cases "skip_ws r1")
    case Nil
    then show ?thesis using p Some a by simp
  next
    case (Cons c cs)
    have cs: "length cs < length r1" by (rule skip_ws_Cons_length [OF Cons])
    show ?thesis
    proof (cases "c = 0x2C")
      case True
      then obtain ws where "parse_elements n cs = Some (ws, r)"
        using p Some a Cons by auto
      then have "length r < length cs" by (rule E)
      then show ?thesis using cs r1 by simp
    next
      case False
      then have "r = cs" using p Some a Cons by (auto split: if_splits)
      then show ?thesis using cs r1 by simp
    qed
  qed
qed

lemma parse_members_Suc_length:
  assumes V: "\<And>s v r. parse_value n s = Some (v, r) \<Longrightarrow> length r < length s"
    and M: "\<And>s ms r. parse_members n s = Some (ms, r) \<Longrightarrow> length r < length s"
    and p: "parse_members (Suc n) s = Some (ms, r)"
  shows "length r < length s"
proof (cases "skip_ws s")
  case Nil
  then show ?thesis using p by simp
next
  case (Cons q ks)
  have ks: "length ks < length s" by (rule skip_ws_Cons_length [OF Cons])
  have q: "q = 0x22" using p Cons by (auto split: if_splits)
  show ?thesis
  proof (cases "parse_string_chars ks")
    case None
    then show ?thesis using p Cons q by simp
  next
    case (Some a)
    obtain k r1 where a: "a = (k, r1)" by (cases a)
    have r1: "length r1 < length ks" using parse_string_chars_length Some a by blast
    show ?thesis
    proof (cases "skip_ws r1")
      case Nil
      then show ?thesis using p Cons q Some a by simp
    next
      case colon: (Cons c cs)
      have cs: "length cs < length r1" by (rule skip_ws_Cons_length [OF colon])
      have c: "c = 0x3A" using p Cons q Some a colon by (auto split: if_splits)
      show ?thesis
      proof (cases "parse_value n cs")
        case None
        then show ?thesis using p Cons q Some a colon c by simp
      next
        case val: (Some b)
        obtain v r2 where b: "b = (v, r2)" by (cases b)
        have r2: "length r2 < length cs" using V val b by blast
        show ?thesis
        proof (cases "skip_ws r2")
          case Nil
          then show ?thesis using p Cons q Some a colon c val b by simp
        next
          case sep: (Cons d ds)
          have ds: "length ds < length r2" by (rule skip_ws_Cons_length [OF sep])
          show ?thesis
          proof (cases "d = 0x2C")
            case True
            then obtain ns where "parse_members n ds = Some (ns, r)"
              using p Cons q Some a colon c val b sep by auto
            then have "length r < length ds" by (rule M)
            then show ?thesis using ds r2 cs r1 ks by simp
          next
            case False
            then have "r = ds" using p Cons q Some a colon c val b sep by (auto split: if_splits)
            then show ?thesis using ds r2 cs r1 ks by simp
          qed
        qed
      qed
    qed
  qed
qed

lemma parser_consumes:
  "(\<forall>s v r. parse_value n s = Some (v, r) \<longrightarrow> length r < length s)
   \<and> (\<forall>s vs r. parse_elements n s = Some (vs, r) \<longrightarrow> length r < length s)
   \<and> (\<forall>s ms r. parse_members n s = Some (ms, r) \<longrightarrow> length r < length s)"
proof (induction n)
  case 0
  show ?case by simp
next
  case (Suc n)
  have V: "\<And>s v r. parse_value n s = Some (v, r) \<Longrightarrow> length r < length s"
    and E: "\<And>s vs r. parse_elements n s = Some (vs, r) \<Longrightarrow> length r < length s"
    and M: "\<And>s ms r. parse_members n s = Some (ms, r) \<Longrightarrow> length r < length s"
    using Suc by blast+
  have "length r < length s" if "parse_value (Suc n) s = Some (v, r)" for s v r
    using M E that by (rule parse_value_Suc_length [where n = n])
  moreover have "length r < length s" if "parse_elements (Suc n) s = Some (vs, r)" for s vs r
    using V E that by (rule parse_elements_Suc_length [where n = n])
  moreover have "length r < length s" if "parse_members (Suc n) s = Some (ms, r)" for s ms r
    using V M that by (rule parse_members_Suc_length [where n = n])
  ultimately show ?case by blast
qed

lemma parse_value_consumes: "parse_value n s = Some (v, r) \<Longrightarrow> length r < length s"
  using parser_consumes [of n] by blast


lemma parse_value_Suc_fuel:
  assumes M: "\<And>t. 2 * length t + 2 \<le> n \<Longrightarrow> 2 * length t + 2 \<le> m
                \<Longrightarrow> parse_members n t = parse_members m t"
    and E: "\<And>t. 2 * length t + 2 \<le> n \<Longrightarrow> 2 * length t + 2 \<le> m
                \<Longrightarrow> parse_elements n t = parse_elements m t"
    and n: "2 * length s + 1 \<le> Suc n" and m: "2 * length s + 1 \<le> Suc m"
  shows "parse_value (Suc n) s = parse_value (Suc m) s"
proof (cases "skip_ws s")
  case Nil
  then show ?thesis by simp
next
  case (Cons c cs)
  have "length cs < length s" by (rule skip_ws_Cons_length [OF Cons])
  then have b: "2 * length cs + 2 \<le> n" and b': "2 * length cs + 2 \<le> m"
    using n m by linarith+
  have eM: "parse_members n cs = parse_members m cs" by (rule M [OF b b'])
  have eE: "parse_elements n cs = parse_elements m cs" by (rule E [OF b b'])
  show ?thesis unfolding parse_value.simps Cons list.case eM eE by (rule refl)
qed

lemma parse_elements_Suc_fuel:
  assumes V: "\<And>t. 2 * length t + 1 \<le> n \<Longrightarrow> 2 * length t + 1 \<le> m
                \<Longrightarrow> parse_value n t = parse_value m t"
    and E: "\<And>t. 2 * length t + 2 \<le> n \<Longrightarrow> 2 * length t + 2 \<le> m
                \<Longrightarrow> parse_elements n t = parse_elements m t"
    and n: "2 * length s + 2 \<le> Suc n" and m: "2 * length s + 2 \<le> Suc m"
  shows "parse_elements (Suc n) s = parse_elements (Suc m) s"
proof -
  have b: "2 * length s + 1 \<le> n" and b': "2 * length s + 1 \<le> m" using n m by linarith+
  note v = V [OF b b']
  show ?thesis
  proof (cases "parse_value m s")
    case None
    then show ?thesis by (simp add: v)
  next
    case (Some a)
    obtain x r where a: "a = (x, r)" by (cases a)
    have r: "length r < length s" using parse_value_consumes Some a by blast
    show ?thesis
    proof (cases "skip_ws r")
      case Nil
      then show ?thesis by (simp add: v Some a)
    next
      case (Cons c cs)
      have "length cs < length r" by (rule skip_ws_Cons_length [OF Cons])
      then have "2 * length cs + 2 \<le> n" and "2 * length cs + 2 \<le> m"
        using r n m by linarith+
      then have "parse_elements n cs = parse_elements m cs" by (rule E)
      then show ?thesis by (simp add: v Some a Cons)
    qed
  qed
qed

lemma parse_members_Suc_fuel:
  assumes V: "\<And>t. 2 * length t + 1 \<le> n \<Longrightarrow> 2 * length t + 1 \<le> m
                \<Longrightarrow> parse_value n t = parse_value m t"
    and M: "\<And>t. 2 * length t + 2 \<le> n \<Longrightarrow> 2 * length t + 2 \<le> m
                \<Longrightarrow> parse_members n t = parse_members m t"
    and n: "2 * length s + 2 \<le> Suc n" and m: "2 * length s + 2 \<le> Suc m"
  shows "parse_members (Suc n) s = parse_members (Suc m) s"
proof (cases "skip_ws s")
  case Nil
  then show ?thesis by simp
next
  case (Cons q ks)
  have ks: "length ks < length s" by (rule skip_ws_Cons_length [OF Cons])
  show ?thesis
  proof (cases "parse_string_chars ks")
    case None
    then show ?thesis by (simp add: Cons)
  next
    case (Some a)
    obtain k r1 where a: "a = (k, r1)" by (cases a)
    have r1: "length r1 < length ks" using parse_string_chars_length Some a by blast
    show ?thesis
    proof (cases "skip_ws r1")
      case Nil
      then show ?thesis by (simp add: Cons Some a)
    next
      case colon: (Cons c cs)
      have cs: "length cs < length r1" by (rule skip_ws_Cons_length [OF colon])
      have "2 * length cs + 1 \<le> n" and "2 * length cs + 1 \<le> m"
        using cs r1 ks n m by linarith+
      then have v: "parse_value n cs = parse_value m cs" by (rule V)
      show ?thesis
      proof (cases "parse_value m cs")
        case None
        then show ?thesis by (simp add: Cons Some a colon v)
      next
        case val: (Some b)
        obtain x r2 where b: "b = (x, r2)" by (cases b)
        have r2: "length r2 < length cs" using parse_value_consumes val b by blast
        show ?thesis
        proof (cases "skip_ws r2")
          case Nil
          then show ?thesis by (simp add: Cons Some a colon v val b)
        next
          case sep: (Cons d ds)
          have "length ds < length r2" by (rule skip_ws_Cons_length [OF sep])
          then have "2 * length ds + 2 \<le> n" and "2 * length ds + 2 \<le> m"
            using r2 cs r1 ks n m by linarith+
          then have "parse_members n ds = parse_members m ds" by (rule M)
          then show ?thesis by (simp add: Cons Some a colon v val b sep)
        qed
      qed
    qed
  qed
qed

lemma parser_fuel:
  "(\<forall>s m. 2 * length s + 1 \<le> n \<and> 2 * length s + 1 \<le> m
       \<longrightarrow> parse_value n s = parse_value m s)
   \<and> (\<forall>s m. 2 * length s + 2 \<le> n \<and> 2 * length s + 2 \<le> m
       \<longrightarrow> parse_elements n s = parse_elements m s)
   \<and> (\<forall>s m. 2 * length s + 2 \<le> n \<and> 2 * length s + 2 \<le> m
       \<longrightarrow> parse_members n s = parse_members m s)"
proof (induction n)
  case 0
  show ?case by simp
next
  case (Suc n)
  have V: "parse_value n t = parse_value k t"
    if "2 * length t + 1 \<le> n" and "2 * length t + 1 \<le> k" for t k
    using Suc that by blast
  have E: "parse_elements n t = parse_elements k t"
    if "2 * length t + 2 \<le> n" and "2 * length t + 2 \<le> k" for t k
    using Suc that by blast
  have M: "parse_members n t = parse_members k t"
    if "2 * length t + 2 \<le> n" and "2 * length t + 2 \<le> k" for t k
    using Suc that by blast
  have "parse_value (Suc n) s = parse_value m s"
    if a: "2 * length s + 1 \<le> Suc n" and b: "2 * length s + 1 \<le> m" for s m
  proof -
    obtain k where m: "m = Suc k" using b by (cases m) auto
    show ?thesis unfolding m
      using M E a b [unfolded m] by (rule parse_value_Suc_fuel [where n = n and m = k])
  qed
  moreover have "parse_elements (Suc n) s = parse_elements m s"
    if a: "2 * length s + 2 \<le> Suc n" and b: "2 * length s + 2 \<le> m" for s m
  proof -
    obtain k where m: "m = Suc k" using b by (cases m) auto
    show ?thesis unfolding m
      using V E a b [unfolded m] by (rule parse_elements_Suc_fuel [where n = n and m = k])
  qed
  moreover have "parse_members (Suc n) s = parse_members m s"
    if a: "2 * length s + 2 \<le> Suc n" and b: "2 * length s + 2 \<le> m" for s m
  proof -
    obtain k where m: "m = Suc k" using b by (cases m) auto
    show ?thesis unfolding m
      using V M a b [unfolded m] by (rule parse_members_Suc_fuel [where n = n and m = k])
  qed
  ultimately show ?case by blast
qed

lemma JSON_parse_fuel:
  assumes "2 * length s + 2 \<le> n"
  shows "parse_value n s = parse_value (2 * length s + 2) s"
proof -
  have "2 * length s + 1 \<le> n" and "2 * length s + 1 \<le> 2 * length s + 2"
    using assms by simp_all
  then show ?thesis using parser_fuel [of n] by blast
qed

lemma JSON_parse_more_fuel:
  assumes "2 * length s + 2 \<le> n"
  shows "JSON_parse s =
           (case parse_value n s of
              None \<Rightarrow> None
            | Some (v, r) \<Rightarrow> if skip_ws r = [] then Some v else None)"
  unfolding JSON_parse_def JSON_parse_fuel [OF assms] by (rule refl)


subsection \<open>A successful parse does not look behind what it consumed\<close>

text \<open>
  Appending to the input leaves a successful parse as it is and appends to the input left
  over.  Only a number at the very end of the input can grow.  Hence no proper prefix of
  an object text parses.
\<close>

lemma skip_ws_append:
  assumes "skip_ws s = c # cs"
  shows "skip_ws (s @ x) = c # cs @ x"
proof -
  have "dropWhile is_json_ws s \<noteq> []" using assms by (simp add: skip_ws_def)
  then have "\<exists>a \<in> set s. \<not> is_json_ws a" by (simp add: dropWhile_eq_Nil_conv)
  then have "dropWhile is_json_ws (s @ x) = dropWhile is_json_ws s @ x"
    by (auto simp: dropWhile_append1)
  then show ?thesis using assms by (simp add: skip_ws_def)
qed

lemma hex4_take:
  assumes "hex4 (take 4 es) = Some h"
  shows "take 4 (es @ x) = take 4 es" and "drop 4 (es @ x) = drop 4 es @ x"
proof -
  have "length (map hex_value (take 4 es)) = 4"
    using assms unfolding hex4_def
    by (auto split: list.splits option.splits simp del: length_map)
  then have "4 \<le> length es" by simp
  then show "take 4 (es @ x) = take 4 es" and "drop 4 (es @ x) = drop 4 es @ x" by simp_all
qed

lemma parse_string_chars_append:
  "parse_string_chars s = Some (k, r) \<Longrightarrow> parse_string_chars (s @ x) = Some (k, r @ x)"
proof (induction s arbitrary: k r rule: parse_string_chars.induct)
  case 1
  then show ?case by simp
next
  case (2 c cs)
  show ?case
  proof (cases "c = 0x22")
    case True
    then show ?thesis using "2.prems" by simp
  next
    case nq: False
    show ?thesis
    proof (cases "c < 0x20")
      case True
      then show ?thesis using "2.prems" nq by simp
    next
      case nc: False
      show ?thesis
      proof (cases "c = 0x5C")
        case False
        then obtain y where y: "parse_string_chars cs = Some (y, r)" and k: "k = c # y"
          using "2.prems" nq nc by (auto split: option.splits)
        have "parse_string_chars (cs @ x) = Some (y, r @ x)"
          using "2.IH"(3) [OF nq nc False y] .
        then show ?thesis using nq nc False k by simp
      next
        case bs: True
        show ?thesis
        proof (cases cs)
          case Nil
          then show ?thesis using "2.prems" nq nc bs by simp
        next
          case (Cons e es)
          show ?thesis
          proof (cases "e = 0x75")
            case True
            then obtain h y where h: "hex4 (take 4 es) = Some h"
              and y: "parse_string_chars (drop 4 es) = Some (y, r)" and k: "k = h # y"
              using "2.prems" nq nc bs Cons by (auto split: option.splits)
            have "parse_string_chars (drop 4 es @ x) = Some (y, r @ x)"
              using "2.IH"(1) [OF nq nc bs Cons True h y] .
            moreover have "parse_string_chars ((c # cs) @ x) =
                (case hex4 (take 4 (es @ x)) of
                   None \<Rightarrow> None
                 | Some h' \<Rightarrow>
                     map_option (apfst ((#) h')) (parse_string_chars (drop 4 (es @ x))))"
              using nq nc bs Cons True by (simp del: take_append drop_append)
            ultimately show ?thesis unfolding hex4_take [OF h] using h k by simp
          next
            case False
            then obtain h y where h: "unescape e = Some h"
              and y: "parse_string_chars es = Some (y, r)" and k: "k = h # y"
              using "2.prems" nq nc bs Cons by (auto split: option.splits)
            have "parse_string_chars (es @ x) = Some (y, r @ x)"
              using "2.IH"(2) [OF nq nc bs Cons False h y] .
            then show ?thesis using nq nc bs Cons False h k by simp
          qed
        qed
      qed
    qed
  qed
qed

lemma parse_digits_append:
  assumes "parse_digits s = Some (ds, r)" and "r \<noteq> []"
  shows "parse_digits (s @ x) = Some (ds, r @ x)"
proof -
  have ne: "takeWhile is_digit s \<noteq> []" and ds: "ds = takeWhile is_digit s"
    and r: "r = dropWhile is_digit s"
    using assms(1) by (auto simp: parse_digits_def split: if_splits)
  have "dropWhile is_digit s \<noteq> []" using assms(2) r by simp
  then have "\<exists>a \<in> set s. \<not> is_digit a" by (simp add: dropWhile_eq_Nil_conv)
  then have "takeWhile is_digit (s @ x) = takeWhile is_digit s"
    and "dropWhile is_digit (s @ x) = dropWhile is_digit s @ x"
    by (auto simp: takeWhile_append1 dropWhile_append1)
  then show ?thesis using ne ds r by (simp add: parse_digits_def)
qed

lemma parse_digits_rest: "parse_digits s = Some (ds, r) \<Longrightarrow> r \<noteq> [] \<Longrightarrow> \<not> is_digit (hd r)"
  by (auto simp: parse_digits_def hd_dropWhile split: if_splits)

lemma parse_int_part_append:
  assumes "parse_int_part s = Some (ds, r)" and "r \<noteq> []"
  shows "parse_int_part (s @ x) = Some (ds, r @ x)"
proof (cases s)
  case Nil
  then show ?thesis using assms by (simp add: parse_int_part_def)
next
  case (Cons d rest)
  show ?thesis
  proof (cases "d = 0x30")
    case True
    then show ?thesis using assms Cons by (simp add: parse_int_part_def)
  next
    case False
    then have "parse_digits s = Some (ds, r)" using assms Cons by (simp add: parse_int_part_def)
    then have "parse_digits (s @ x) = Some (ds, r @ x)" using assms(2) by (rule parse_digits_append)
    then show ?thesis using False Cons by (simp add: parse_int_part_def)
  qed
qed

lemma parse_frac_part_append:
  assumes "parse_frac_part s = Some (fp, r)" and "r \<noteq> []"
  shows "parse_frac_part (s @ x) = Some (fp, r @ x)"
proof (cases s)
  case Nil
  then show ?thesis using assms by (simp add: parse_frac_part_def)
next
  case (Cons c cs)
  show ?thesis
  proof (cases "c = 0x2E")
    case True
    then obtain ds where d: "parse_digits cs = Some (ds, r)" and fp: "fp = c # ds"
      using assms Cons by (auto simp: parse_frac_part_def)
    have "parse_digits (cs @ x) = Some (ds, r @ x)" using d assms(2) by (rule parse_digits_append)
    then show ?thesis using True Cons fp by (simp add: parse_frac_part_def)
  next
    case False
    then show ?thesis using assms Cons by (auto simp: parse_frac_part_def)
  qed
qed

lemma parse_exp_part_append:
  assumes "parse_exp_part s = Some (ep, r)" and "r \<noteq> []"
  shows "parse_exp_part (s @ x) = Some (ep, r @ x)"
proof (cases s)
  case Nil
  then show ?thesis using assms by (simp add: parse_exp_part_def)
next
  case (Cons c cs)
  show ?thesis
  proof (cases "c = 0x65 \<or> c = 0x45")
    case False
    then show ?thesis using assms Cons by (auto simp: parse_exp_part_def)
  next
    case e: True
    show ?thesis
    proof (cases cs)
      case Nil
      then show ?thesis using assms Cons e by (auto simp: parse_exp_part_def)
    next
      case inner: (Cons g gs)
      show ?thesis
      proof (cases "g = 0x2B \<or> g = 0x2D")
        case True
        then obtain ds where d: "parse_digits gs = Some (ds, r)" and ep: "ep = c # g # ds"
          using assms Cons e inner by (auto simp: parse_exp_part_def)
        have "parse_digits (gs @ x) = Some (ds, r @ x)"
          using d assms(2) by (rule parse_digits_append)
        then show ?thesis using True Cons e inner ep by (auto simp: parse_exp_part_def)
      next
        case False
        then obtain ds where d: "parse_digits cs = Some (ds, r)" and ep: "ep = c # ds"
          using assms Cons e inner by (auto simp: parse_exp_part_def)
        have "parse_digits (cs @ x) = Some (ds, r @ x)"
          using d assms(2) by (rule parse_digits_append)
        then show ?thesis using False Cons e inner ep by (auto simp: parse_exp_part_def)
      qed
    qed
  qed
qed


lemma parse_number_append:
  assumes "parse_number s = Some (t, r)" and "r \<noteq> []"
  shows "parse_number (s @ x) = Some (t, r @ x)"
proof -
  define sg where "sg = (case s of [] \<Rightarrow> [] | c # cs \<Rightarrow> if c = 0x2D then [c] else [])"
  define s1 where "s1 = (case s of [] \<Rightarrow> s | c # cs \<Rightarrow> if c = 0x2D then cs else s)"
  have split: "(case s of [] \<Rightarrow> ([], s) | c # cs \<Rightarrow> if c = 0x2D then ([c], cs) else ([], s))
                 = (sg, s1)"
    by (simp add: sg_def s1_def split: list.splits)
  obtain ip s2 fp s3 ep where
    a: "parse_int_part s1 = Some (ip, s2)" and b: "parse_frac_part s2 = Some (fp, s3)"
    and c: "parse_exp_part s3 = Some (ep, r)" and t: "t = sg @ ip @ fp @ ep"
    using assms(1) unfolding parse_number_def split
    by (auto simp: Let_def split: option.splits)
  have s3: "s3 \<noteq> []" using parse_exp_part_length [OF c] assms(2) by auto
  have s2: "s2 \<noteq> []" using parse_frac_part_length [OF b] s3 by auto
  have s1ne: "s1 \<noteq> []" using parse_int_part_length [OF a] by auto
  then have sne: "s \<noteq> []" by (auto simp: s1_def)
  have split': "(case s @ x of [] \<Rightarrow> ([], s @ x)
                 | c # cs \<Rightarrow> if c = 0x2D then ([c], cs) else ([], s @ x)) = (sg, s1 @ x)"
    using sne by (cases s) (simp_all add: sg_def s1_def)
  have a': "parse_int_part (s1 @ x) = Some (ip, s2 @ x)" by (rule parse_int_part_append [OF a s2])
  have b': "parse_frac_part (s2 @ x) = Some (fp, s3 @ x)" by (rule parse_frac_part_append [OF b s3])
  have c': "parse_exp_part (s3 @ x) = Some (ep, r @ x)"
    by (rule parse_exp_part_append [OF c assms(2)])
  show ?thesis unfolding parse_number_def split' by (simp add: a' b' c' t)
qed

lemma literal_append:
  assumes "take k s = lit" and "length lit = k"
  shows "take k (s @ x) = lit" and "drop k (s @ x) = drop k s @ x"
proof -
  have "k \<le> length s" using assms by (metis length_take min.cobounded1)
  then show "take k (s @ x) = lit" and "drop k (s @ x) = drop k s @ x" using assms by simp_all
qed

lemma parse_value_Suc_append:
  assumes M: "\<And>s ms r. parse_members n s = Some (ms, r)
                \<Longrightarrow> parse_members n (s @ x) = Some (ms, r @ x)"
    and E: "\<And>s vs r. parse_elements n s = Some (vs, r)
                \<Longrightarrow> parse_elements n (s @ x) = Some (vs, r @ x)"
    and p: "parse_value (Suc n) s = Some (v, r)"
    and num: "r \<noteq> [] \<or> (\<forall>t. v \<noteq> JNum t)"
  shows "parse_value (Suc n) (s @ x) = Some (v, r @ x)"
proof (cases "skip_ws s")
  case Nil
  then show ?thesis using p by simp
next
  case (Cons c cs)
  note sk = skip_ws_append [OF Cons, of x]
  show ?thesis
  proof (cases "c = 0x7B")
    case True
    show ?thesis
    proof (cases "skip_ws cs")
      case Nil
      then show ?thesis using p Cons True by simp
    next
      case inner: (Cons d ds)
      note sk2 = skip_ws_append [OF inner, of x]
      show ?thesis
      proof (cases "d = 0x7D")
        case True
        then show ?thesis using p Cons \<open>c = 0x7B\<close> inner sk sk2 by simp
      next
        case False
        then obtain ms where ms: "parse_members n cs = Some (ms, r)" and v: "v = make_object ms"
          using p Cons \<open>c = 0x7B\<close> inner by auto
        have "parse_members n (cs @ x) = Some (ms, r @ x)" using ms by (rule M)
        then show ?thesis using Cons \<open>c = 0x7B\<close> False sk sk2 v by simp
      qed
    qed
  next
    case nb: False
    show ?thesis
    proof (cases "c = 0x5B")
      case True
      show ?thesis
      proof (cases "skip_ws cs")
        case Nil
        then show ?thesis using p Cons nb True by simp
      next
        case inner: (Cons d ds)
        note sk2 = skip_ws_append [OF inner, of x]
        show ?thesis
        proof (cases "d = 0x5D")
          case True
          then show ?thesis using p Cons nb \<open>c = 0x5B\<close> inner sk sk2 by simp
        next
          case False
          then obtain vs where vs: "parse_elements n cs = Some (vs, r)" and v: "v = JArr vs"
            using p Cons nb \<open>c = 0x5B\<close> inner by auto
          have "parse_elements n (cs @ x) = Some (vs, r @ x)" using vs by (rule E)
          then show ?thesis using Cons nb \<open>c = 0x5B\<close> False sk sk2 v by simp
        qed
      qed
    next
      case nk: False
      show ?thesis
      proof (cases "c = 0x22")
        case True
        then obtain k where k: "parse_string_chars cs = Some (k, r)" and v: "v = JStr k"
          using p Cons nb nk by auto
        have "parse_string_chars (cs @ x) = Some (k, r @ x)"
          using k by (rule parse_string_chars_append)
        then show ?thesis using Cons nb nk True sk v by simp
      next
        case nq: False
        have lits: "js ''true'' = 0x74 # js ''rue''" "js ''false'' = 0x66 # js ''alse''"
          "js ''null'' = 0x6E # js ''ull''"
          by (simp_all add: js_def u_def)
        have lens: "length (js ''true'') = 4" "length (js ''false'') = 5" "length (js ''null'') = 4"
          by (simp_all add: js_def)
        show ?thesis
        proof (cases "take 4 (c # cs) = js ''true''")
          case True
          have "v = JBool True" and "r = drop 3 cs" using p Cons nb nk nq True by simp_all
          then show ?thesis
            using Cons nb nk nq sk literal_append [OF True lens(1), of x] by simp
        next
          case nt: False
          show ?thesis
          proof (cases "take 5 (c # cs) = js ''false''")
            case True
            have c: "c = 0x66" using True lits(2) by simp
            have nt': "take 4 (c # cs @ x) \<noteq> js ''true''"
              using c lits(1) by simp
            have "v = JBool False" and "r = drop 4 cs" using p Cons nb nk nq nt True by simp_all
            then show ?thesis
              using Cons nb nk nq sk nt' literal_append [OF True lens(2), of x]
              by (simp del: take_Suc_Cons take_append)
          next
            case nf: False
            show ?thesis
            proof (cases "take 4 (c # cs) = js ''null''")
              case True
              have c: "c = 0x6E" using True lits(3) by simp
              have nt': "take 4 (c # cs @ x) \<noteq> js ''true''"
                using c lits(1) by simp
              have nf': "take 5 (c # cs @ x) \<noteq> js ''false''"
                using c lits(2) by simp
              have "v = JNull" and "r = drop 3 cs" using p Cons nb nk nq nt nf True by simp_all
              then show ?thesis
                using Cons nb nk nq sk nt' nf' literal_append [OF True lens(3), of x]
                by (simp del: take_Suc_Cons take_append)
            next
              case nn: False
              have d: "c = 0x2D \<or> is_digit c"
                using p Cons nb nk nq nt nf nn by (auto split: if_splits)
              then have c: "c \<noteq> 0x74" "c \<noteq> 0x66" "c \<noteq> 0x6E"
                by (auto simp: is_digit_def)
              have nt': "take 4 (c # cs @ x) \<noteq> js ''true''"
                using c lits(1) by simp
              have nf': "take 5 (c # cs @ x) \<noteq> js ''false''"
                using c lits(2) by simp
              have nn': "take 4 (c # cs @ x) \<noteq> js ''null''"
                using c lits(3) by simp
              obtain t where t: "parse_number (c # cs) = Some (t, r)" and v: "v = JNum t"
                using p Cons nb nk nq nt nf nn d by auto
              have "r \<noteq> []" using num v by simp
              then have "parse_number ((c # cs) @ x) = Some (t, r @ x)"
                using t by (intro parse_number_append)
              then show ?thesis
                using Cons nb nk nq sk nt' nf' nn' d v
                by (simp del: take_Suc_Cons take_append)
            qed
          qed
        qed
      qed
    qed
  qed
qed


lemma parse_elements_Suc_append:
  assumes V: "\<And>s v r. parse_value n s = Some (v, r) \<Longrightarrow> r \<noteq> [] \<or> (\<forall>t. v \<noteq> JNum t)
                \<Longrightarrow> parse_value n (s @ x) = Some (v, r @ x)"
    and E: "\<And>s vs r. parse_elements n s = Some (vs, r)
                \<Longrightarrow> parse_elements n (s @ x) = Some (vs, r @ x)"
    and p: "parse_elements (Suc n) s = Some (vs, r)"
  shows "parse_elements (Suc n) (s @ x) = Some (vs, r @ x)"
proof (cases "parse_value n s")
  case None
  then show ?thesis using p by simp
next
  case (Some a)
  obtain v r1 where a: "a = (v, r1)" by (cases a)
  show ?thesis
  proof (cases "skip_ws r1")
    case Nil
    then show ?thesis using p Some a by simp
  next
    case (Cons c cs)
    then have "r1 \<noteq> []" by (auto simp: skip_ws_def)
    then have v: "parse_value n (s @ x) = Some (v, r1 @ x)" using V Some a by blast
    note sk = skip_ws_append [OF Cons, of x]
    show ?thesis
    proof (cases "c = 0x2C")
      case True
      then obtain ws where ws: "parse_elements n cs = Some (ws, r)" and vs: "vs = v # ws"
        using p Some a Cons by auto
      have "parse_elements n (cs @ x) = Some (ws, r @ x)" using ws by (rule E)
      then show ?thesis using v sk True vs by simp
    next
      case False
      then have "c = 0x5D" and "r = cs" and "vs = [v]"
        using p Some a Cons by (auto split: if_splits)
      then show ?thesis using v sk False by simp
    qed
  qed
qed

lemma parse_members_Suc_append:
  assumes V: "\<And>s v r. parse_value n s = Some (v, r) \<Longrightarrow> r \<noteq> [] \<or> (\<forall>t. v \<noteq> JNum t)
                \<Longrightarrow> parse_value n (s @ x) = Some (v, r @ x)"
    and M: "\<And>s ms r. parse_members n s = Some (ms, r)
                \<Longrightarrow> parse_members n (s @ x) = Some (ms, r @ x)"
    and p: "parse_members (Suc n) s = Some (ms, r)"
  shows "parse_members (Suc n) (s @ x) = Some (ms, r @ x)"
proof (cases "skip_ws s")
  case Nil
  then show ?thesis using p by simp
next
  case (Cons q ks)
  note sk = skip_ws_append [OF Cons, of x]
  have q: "q = 0x22" using p Cons by (auto split: if_splits)
  show ?thesis
  proof (cases "parse_string_chars ks")
    case None
    then show ?thesis using p Cons q by simp
  next
    case (Some a)
    obtain k r1 where a: "a = (k, r1)" by (cases a)
    have key: "parse_string_chars (ks @ x) = Some (k, r1 @ x)"
      using Some a parse_string_chars_append by blast
    show ?thesis
    proof (cases "skip_ws r1")
      case Nil
      then show ?thesis using p Cons q Some a by simp
    next
      case colon: (Cons c cs)
      note sk1 = skip_ws_append [OF colon, of x]
      have c: "c = 0x3A" using p Cons q Some a colon by (auto split: if_splits)
      show ?thesis
      proof (cases "parse_value n cs")
        case None
        then show ?thesis using p Cons q Some a colon c by simp
      next
        case val: (Some b)
        obtain v r2 where b: "b = (v, r2)" by (cases b)
        show ?thesis
        proof (cases "skip_ws r2")
          case Nil
          then show ?thesis using p Cons q Some a colon c val b by simp
        next
          case sep: (Cons d ds)
          then have "r2 \<noteq> []" by (auto simp: skip_ws_def)
          then have v: "parse_value n (cs @ x) = Some (v, r2 @ x)" using V val b by blast
          note sk2 = skip_ws_append [OF sep, of x]
          show ?thesis
          proof (cases "d = 0x2C")
            case True
            then obtain ns where ns: "parse_members n ds = Some (ns, r)" and ms: "ms = (k, v) # ns"
              using p Cons q Some a colon c val b sep by auto
            have "parse_members n (ds @ x) = Some (ns, r @ x)" using ns by (rule M)
            then show ?thesis using sk q key sk1 c v sk2 True ms by simp
          next
            case False
            then have "d = 0x7D" and "r = ds" and "ms = [(k, v)]"
              using p Cons q Some a colon c val b sep by (auto split: if_splits)
            then show ?thesis using sk q key sk1 c v sk2 False by simp
          qed
        qed
      qed
    qed
  qed
qed

lemma parser_append:
  "(\<forall>s v r. parse_value n s = Some (v, r) \<and> (r \<noteq> [] \<or> (\<forall>t. v \<noteq> JNum t))
       \<longrightarrow> parse_value n (s @ x) = Some (v, r @ x))
   \<and> (\<forall>s vs r. parse_elements n s = Some (vs, r)
       \<longrightarrow> parse_elements n (s @ x) = Some (vs, r @ x))
   \<and> (\<forall>s ms r. parse_members n s = Some (ms, r)
       \<longrightarrow> parse_members n (s @ x) = Some (ms, r @ x))"
proof (induction n)
  case 0
  show ?case by simp
next
  case (Suc n)
  have V: "parse_value n (s @ x) = Some (v, r @ x)"
    if "parse_value n s = Some (v, r)" and "r \<noteq> [] \<or> (\<forall>t. v \<noteq> JNum t)" for s v r
    using Suc that by blast
  have E: "parse_elements n (s @ x) = Some (vs, r @ x)"
    if "parse_elements n s = Some (vs, r)" for s vs r
    using Suc that by blast
  have M: "parse_members n (s @ x) = Some (ms, r @ x)"
    if "parse_members n s = Some (ms, r)" for s ms r
    using Suc that by blast
  have "parse_value (Suc n) (s @ x) = Some (v, r @ x)"
    if "parse_value (Suc n) s = Some (v, r)" and "r \<noteq> [] \<or> (\<forall>t. v \<noteq> JNum t)" for s v r
    using M E that by (rule parse_value_Suc_append [where n = n])
  moreover have "parse_elements (Suc n) (s @ x) = Some (vs, r @ x)"
    if "parse_elements (Suc n) s = Some (vs, r)" for s vs r
    using V E that by (rule parse_elements_Suc_append [where n = n])
  moreover have "parse_members (Suc n) (s @ x) = Some (ms, r @ x)"
    if "parse_members (Suc n) s = Some (ms, r)" for s ms r
    using V M that by (rule parse_members_Suc_append [where n = n])
  ultimately show ?case by blast
qed

lemma parse_value_append:
  assumes "parse_value n s = Some (v, r)" and "r \<noteq> [] \<or> (\<forall>t. v \<noteq> JNum t)"
  shows "parse_value n (s @ x) = Some (v, r @ x)"
  using parser_append [of n x] assms by blast

lemma parse_value_brace:
  assumes "parse_value n (0x7B # s) = Some (v, r)"
  shows "\<forall>t. v \<noteq> JNum t"
proof (cases n)
  case 0
  then show ?thesis using assms by simp
next
  case (Suc k)
  have "skip_ws (0x7B # s) = 0x7B # s" by (simp add: skip_ws_def is_json_ws_def)
  then show ?thesis using assms Suc
    by (auto simp: make_object_def split: list.splits if_splits)
qed

text \<open>No proper prefix of an object text is a JSON text.\<close>

lemma JSON_prefix_free:
  assumes whole: "JSON_parse (0x7B # s) = Some v"
    and nows: "\<not> is_json_ws (last (0x7B # s))"
    and pre: "0x7B # s = (0x7B # p) @ y" and y: "y \<noteq> []"
  shows "JSON_parse (0x7B # p) = None"
proof (rule ccontr)
  assume "JSON_parse (0x7B # p) \<noteq> None"
  then obtain v' where "JSON_parse (0x7B # p) = Some v'" by auto
  define N where "N = 2 * length (0x7B # s) + 2"
  define K where "K = 2 * length (0x7B # p) + 2"
  obtain r' where p': "parse_value K (0x7B # p) = Some (v', r')"
    using \<open>JSON_parse (0x7B # p) = Some v'\<close> unfolding JSON_parse_def K_def
    by (auto split: option.splits if_splits)
  have "length (0x7B # p) \<le> length (0x7B # s)" using pre by (metis length_append le_add1)
  then have KN: "K \<le> N" by (simp add: K_def N_def)
  have "parse_value N (0x7B # p) = parse_value K (0x7B # p)"
    unfolding K_def by (rule JSON_parse_fuel) (use KN in \<open>simp add: K_def\<close>)
  then have pN: "parse_value N (0x7B # p) = Some (v', r')" using p' by simp
  have "parse_value N ((0x7B # p) @ y) = Some (v', r' @ y)"
    using pN parse_value_brace [OF pN] by (intro parse_value_append) simp_all
  then have ext: "parse_value N (0x7B # s) = Some (v', r' @ y)" using pre by simp
  obtain r where r: "parse_value N (0x7B # s) = Some (v, r)" and ws: "skip_ws r = []"
    using whole unfolding JSON_parse_def N_def by (auto split: option.splits if_splits)
  have ry: "r = r' @ y" using ext r by simp
  then have rne: "r \<noteq> []" using y by simp
  have "last ((0x7B # p) @ y) = last y" using y by (rule last_appendR)
  moreover have "last (r' @ y) = last y" using y by (rule last_appendR)
  ultimately have "last (0x7B # s) = last r" by (simp only: pre [symmetric] ry)
  moreover have "is_json_ws (last r)"
  proof -
    have "dropWhile is_json_ws r = []" using ws by (simp add: skip_ws_def)
    then have "\<forall>a \<in> set r. is_json_ws a" by (simp add: dropWhile_eq_Nil_conv)
    then show ?thesis using rne by simp
  qed
  ultimately show False using nows by simp
qed


subsection \<open>String literals and the text around them\<close>

text \<open>
  Whatever the parser consumes is read from outside to outside, and so is a whole JSON
  text.  A text that is read from the inside of a literal to the outside is therefore not
  a JSON text: the two readings meet the same quotes and stay opposite to each other.
\<close>

lemma lex_scan_Nil: "lex_scan st [] = st"
  by (simp add: lex_scan_def)

lemma lex_scan_Cons: "lex_scan st (c # cs) = lex_scan (lex_step st c) cs"
  by (simp add: lex_scan_def)

lemma lex_scan_append: "lex_scan st (a @ b) = lex_scan (lex_scan st a) b"
  by (simp add: lex_scan_def)

lemma lex_scan_Invalid: "lex_scan Invalid s = Invalid"
  by (induction s) (simp_all add: lex_scan_Nil lex_scan_Cons)

lemma lex_scan_stays:
  assumes "\<And>c. c \<in> set s \<Longrightarrow> lex_step st c = st"
  shows "lex_scan st s = st"
  using assms by (induction s) (simp_all add: lex_scan_Nil lex_scan_Cons)

lemma outside_run_refl: "outside_run s s"
proof -
  have "s = [] @ s \<and> lex_scan Outside [] = Outside" by (simp add: lex_scan_Nil)
  then show ?thesis by blast
qed

lemma outside_run_trans:
  assumes "outside_run s r" and "outside_run r t"
  shows "outside_run s t"
proof -
  obtain a where a: "s = a @ r" "lex_scan Outside a = Outside" using assms(1) by blast
  obtain b where b: "r = b @ t" "lex_scan Outside b = Outside" using assms(2) by blast
  have "s = (a @ b) @ t \<and> lex_scan Outside (a @ b) = Outside"
    using a b by (simp add: lex_scan_append)
  then show ?thesis by blast
qed

lemma outside_run_char:
  assumes "lex_step Outside c = Outside"
  shows "outside_run (c # cs) cs"
proof -
  have "c # cs = [c] @ cs \<and> lex_scan Outside [c] = Outside"
    using assms by (simp add: lex_scan_Nil lex_scan_Cons)
  then show ?thesis by blast
qed

lemma json_ws_outside: "is_json_ws c \<Longrightarrow> lex_step Outside c = Outside"
  by (auto simp: is_json_ws_def)

lemma digit_outside: "is_digit c \<Longrightarrow> lex_step Outside c = Outside"
  by (auto simp: is_digit_def)

lemma outside_run_takeWhile:
  assumes "\<And>c. P c \<Longrightarrow> lex_step Outside c = Outside"
  shows "outside_run s (dropWhile P s)"
proof -
  have "lex_scan Outside (takeWhile P s) = Outside"
    by (rule lex_scan_stays) (meson assms set_takeWhileD)
  then have "s = takeWhile P s @ dropWhile P s \<and> lex_scan Outside (takeWhile P s) = Outside"
    by simp
  then show ?thesis by blast
qed

lemma outside_run_skip_ws: "outside_run s (skip_ws s)"
  unfolding skip_ws_def by (rule outside_run_takeWhile) (rule json_ws_outside)

lemma outside_run_skip_Cons:
  assumes "skip_ws s = c # cs" and "lex_step Outside c = Outside"
  shows "outside_run s cs"
proof -
  have "outside_run s (c # cs)" using outside_run_skip_ws [of s] assms(1) by simp
  then show ?thesis using outside_run_char [OF assms(2)] by (rule outside_run_trans)
qed

lemma hex_value_plain: "hex_value c \<noteq> None \<Longrightarrow> c \<noteq> 0x22 \<and> c \<noteq> 0x5C"
  by (auto simp: hex_value_def split: if_splits)

lemma hex4_plain:
  assumes "hex4 hs = Some x" and "c \<in> set hs"
  shows "lex_step Inside c = Inside"
proof -
  have "hex_value c \<noteq> None"
    using assms by (auto simp: hex4_def split: list.splits option.splits)
  then show ?thesis using hex_value_plain by simp
qed

lemma string_run:
  "parse_string_chars s = Some (x, r) \<Longrightarrow> \<exists>c. s = c @ r \<and> lex_scan Inside c = Outside"
proof (induction s arbitrary: x r rule: parse_string_chars.induct)
  case 1
  then show ?case by simp
next
  case (2 c cs)
  show ?case
  proof (cases "c = 0x22")
    case True
    then have "r = cs" using "2.prems" by simp
    then have "c # cs = [c] @ r \<and> lex_scan Inside [c] = Outside"
      using True by (simp add: lex_scan_Nil lex_scan_Cons)
    then show ?thesis by blast
  next
    case nq: False
    show ?thesis
    proof (cases "c < 0x20")
      case True
      then show ?thesis using "2.prems" nq by simp
    next
      case nc: False
      show ?thesis
      proof (cases "c = 0x5C")
        case False
        then obtain y where "parse_string_chars cs = Some (y, r)"
          using "2.prems" nq nc by (auto split: option.splits)
        then obtain a where a: "cs = a @ r" "lex_scan Inside a = Outside"
          using "2.IH"(3) nq nc False by blast
        have "c # cs = (c # a) @ r \<and> lex_scan Inside (c # a) = Outside"
          using a nq False by (simp add: lex_scan_Cons)
        then show ?thesis by blast
      next
        case bs: True
        show ?thesis
        proof (cases cs)
          case Nil
          then show ?thesis using "2.prems" nq nc bs by simp
        next
          case (Cons e es)
          show ?thesis
          proof (cases "e = 0x75")
            case True
            then obtain h y where h: "hex4 (take 4 es) = Some h"
              and y: "parse_string_chars (drop 4 es) = Some (y, r)"
              using "2.prems" nq nc bs Cons by (auto split: option.splits)
            obtain a where a: "drop 4 es = a @ r" "lex_scan Inside a = Outside"
              using "2.IH"(1) [OF nq nc bs Cons True h y] by blast
            have hx: "lex_scan Inside (take 4 es) = Inside"
              by (rule lex_scan_stays) (rule hex4_plain [OF h])
            have "es = take 4 es @ drop 4 es" by simp
            then have es: "es = (take 4 es @ a) @ r" using a(1) by simp
            have "lex_scan Inside (c # e # take 4 es @ a) = Outside"
              using bs a(2) hx by (simp add: lex_scan_Cons lex_scan_append)
            moreover have "c # cs = (c # e # take 4 es @ a) @ r" using Cons es by simp
            ultimately show ?thesis by blast
          next
            case False
            then obtain h y where h: "unescape e = Some h"
              and y: "parse_string_chars es = Some (y, r)"
              using "2.prems" nq nc bs Cons by (auto split: option.splits)
            obtain a where a: "es = a @ r" "lex_scan Inside a = Outside"
              using "2.IH"(2) [OF nq nc bs Cons False h y] by blast
            have "lex_scan Inside (c # e # a) = Outside"
              using bs a(2) by (simp add: lex_scan_Cons)
            moreover have "c # cs = (c # e # a) @ r" using Cons a(1) by simp
            ultimately show ?thesis by blast
          qed
        qed
      qed
    qed
  qed
qed

lemma outside_run_string:
  assumes "outside_run s (0x22 # cs)" and "parse_string_chars cs = Some (x, r)"
  shows "outside_run s r"
proof -
  obtain a where a: "s = a @ 0x22 # cs" "lex_scan Outside a = Outside" using assms(1) by blast
  obtain b where b: "cs = b @ r" "lex_scan Inside b = Outside"
    using string_run [OF assms(2)] by blast
  have "s = (a @ 0x22 # b) @ r \<and> lex_scan Outside (a @ 0x22 # b) = Outside"
    using a b by (simp add: lex_scan_append lex_scan_Cons)
  then show ?thesis by blast
qed

lemma outside_run_digits:
  assumes "parse_digits s = Some (ds, r)"
  shows "outside_run s r"
proof -
  have "r = dropWhile is_digit s" using assms by (auto simp: parse_digits_def split: if_splits)
  then show ?thesis using outside_run_takeWhile [of is_digit s] digit_outside by simp
qed

lemma outside_run_int_part:
  assumes "parse_int_part s = Some (x, r)"
  shows "outside_run s r"
proof (cases s)
  case Nil
  then show ?thesis using assms by (simp add: parse_int_part_def)
next
  case (Cons d ds)
  show ?thesis
  proof (cases "d = 0x30")
    case True
    then have "r = ds" using assms Cons by (simp add: parse_int_part_def)
    then show ?thesis unfolding Cons using True outside_run_char [of d ds] by simp
  next
    case False
    then have "parse_digits s = Some (x, r)" using assms Cons by (simp add: parse_int_part_def)
    then show ?thesis by (rule outside_run_digits)
  qed
qed

lemma outside_run_frac_part:
  assumes "parse_frac_part s = Some (x, r)"
  shows "outside_run s r"
proof (cases s)
  case Nil
  then have "r = s" using assms by (simp add: parse_frac_part_def)
  then show ?thesis using outside_run_refl by simp
next
  case (Cons c cs)
  show ?thesis
  proof (cases "c = 0x2E")
    case True
    then obtain ds where "parse_digits cs = Some (ds, r)"
      using assms Cons by (auto simp: parse_frac_part_def)
    then have "outside_run cs r" by (rule outside_run_digits)
    moreover have "outside_run (c # cs) cs" using True by (intro outside_run_char) simp
    ultimately show ?thesis unfolding Cons using outside_run_trans by blast
  next
    case False
    then have "r = s" using assms Cons by (simp add: parse_frac_part_def)
    then show ?thesis using outside_run_refl by simp
  qed
qed

lemma outside_run_exp_part:
  assumes "parse_exp_part s = Some (x, r)"
  shows "outside_run s r"
proof (cases s)
  case Nil
  then have "r = s" using assms by (simp add: parse_exp_part_def)
  then show ?thesis using outside_run_refl by simp
next
  case (Cons c cs)
  show ?thesis
  proof (cases "c = 0x65 \<or> c = 0x45")
    case False
    then have "r = s" using assms Cons by (simp add: parse_exp_part_def)
    then show ?thesis using outside_run_refl by simp
  next
    case True
    then have c: "outside_run (c # cs) cs" by (intro outside_run_char) auto
    show ?thesis
    proof (cases cs)
      case Nil
      then show ?thesis using assms Cons True by (simp add: parse_exp_part_def)
    next
      case inner: (Cons g gs)
      show ?thesis
      proof (cases "g = 0x2B \<or> g = 0x2D")
        case sign: True
        then obtain ds where "parse_digits gs = Some (ds, r)"
          using assms Cons True inner by (auto simp: parse_exp_part_def)
        then have "outside_run gs r" by (rule outside_run_digits)
        moreover have "outside_run (g # gs) gs" using sign by (intro outside_run_char) auto
        ultimately have "outside_run cs r" unfolding inner using outside_run_trans by blast
        with c show ?thesis unfolding Cons by (rule outside_run_trans)
      next
        case False
        then obtain ds where "parse_digits cs = Some (ds, r)"
          using assms Cons True inner by (auto simp: parse_exp_part_def)
        then have "outside_run cs r" by (rule outside_run_digits)
        with c show ?thesis unfolding Cons by (rule outside_run_trans)
      qed
    qed
  qed
qed

lemma outside_run_number:
  assumes "parse_number s = Some (x, r)"
  shows "outside_run s r"
proof -
  define s1 where "s1 = (case s of [] \<Rightarrow> s | c # cs \<Rightarrow> if c = 0x2D then cs else s)"
  have s1: "outside_run s s1"
  proof (cases s)
    case Nil
    then show ?thesis using outside_run_refl by (simp add: s1_def)
  next
    case (Cons c cs)
    show ?thesis
    proof (cases "c = 0x2D")
      case True
      then have "s1 = cs" by (simp add: s1_def Cons)
      moreover have "outside_run (c # cs) cs" using True by (intro outside_run_char) simp
      ultimately show ?thesis unfolding Cons by simp
    next
      case False
      then have "s1 = s" by (simp add: s1_def Cons)
      then show ?thesis using outside_run_refl by simp
    qed
  qed
  obtain ip s2 fp s3 ep where
    a: "parse_int_part s1 = Some (ip, s2)" and b: "parse_frac_part s2 = Some (fp, s3)"
    and c: "parse_exp_part s3 = Some (ep, r)"
    using assms unfolding parse_number_def s1_def
    by (auto simp: Let_def split: list.splits if_splits option.splits)
  have "outside_run s s2" using s1 outside_run_int_part [OF a] by (rule outside_run_trans)
  then have "outside_run s s3" using outside_run_frac_part [OF b] by (rule outside_run_trans)
  then show ?thesis using outside_run_exp_part [OF c] by (rule outside_run_trans)
qed

lemma outside_run_literal:
  assumes "take (length lit) s = lit" and "lex_scan Outside lit = Outside"
  shows "outside_run s (drop (length lit) s)"
proof -
  have "s = take (length lit) s @ drop (length lit) s" by simp
  then have "s = lit @ drop (length lit) s" using assms(1) by simp
  then show ?thesis using assms(2) by blast
qed

lemma literal_runs:
  "lex_scan Outside (js ''true'') = Outside"
  "lex_scan Outside (js ''false'') = Outside"
  "lex_scan Outside (js ''null'') = Outside"
  by (simp_all add: js_def u_def lex_scan_def)

lemma literal_lengths:
  "length (js ''true'') = 4" "length (js ''false'') = 5" "length (js ''null'') = 4"
  by (simp_all add: js_def)

lemma parse_value_Suc_run:
  assumes M: "\<And>s ms r. parse_members n s = Some (ms, r) \<Longrightarrow> outside_run s r"
    and E: "\<And>s vs r. parse_elements n s = Some (vs, r) \<Longrightarrow> outside_run s r"
    and p: "parse_value (Suc n) s = Some (v, r)"
  shows "outside_run s r"
proof (cases "skip_ws s")
  case Nil
  then show ?thesis using p by simp
next
  case (Cons c cs)
  have whole: "outside_run s (c # cs)" using outside_run_skip_ws [of s] Cons by simp
  show ?thesis
  proof (cases "c = 0x7B")
    case True
    have cs: "outside_run s cs"
      by (rule outside_run_skip_Cons [OF Cons]) (simp add: True)
    show ?thesis
    proof (cases "skip_ws cs")
      case Nil
      then show ?thesis using p Cons True by simp
    next
      case inner: (Cons d ds)
      show ?thesis
      proof (cases "d = 0x7D")
        case True
        then have r: "r = ds" using p Cons \<open>c = 0x7B\<close> inner by simp
        have "outside_run cs ds" by (rule outside_run_skip_Cons [OF inner]) (simp add: True)
        with cs show ?thesis unfolding r by (rule outside_run_trans)
      next
        case False
        then obtain ms where "parse_members n cs = Some (ms, r)"
          using p Cons \<open>c = 0x7B\<close> inner by auto
        then have "outside_run cs r" by (rule M)
        with cs show ?thesis by (rule outside_run_trans)
      qed
    qed
  next
    case nb: False
    show ?thesis
    proof (cases "c = 0x5B")
      case True
      have cs: "outside_run s cs"
        by (rule outside_run_skip_Cons [OF Cons]) (simp add: True)
      show ?thesis
      proof (cases "skip_ws cs")
        case Nil
        then show ?thesis using p Cons nb True by simp
      next
        case inner: (Cons d ds)
        show ?thesis
        proof (cases "d = 0x5D")
          case True
          then have r: "r = ds" using p Cons nb \<open>c = 0x5B\<close> inner by simp
          have "outside_run cs ds" by (rule outside_run_skip_Cons [OF inner]) (simp add: True)
          with cs show ?thesis unfolding r by (rule outside_run_trans)
        next
          case False
          then obtain vs where "parse_elements n cs = Some (vs, r)"
            using p Cons nb \<open>c = 0x5B\<close> inner by auto
          then have "outside_run cs r" by (rule E)
          with cs show ?thesis by (rule outside_run_trans)
        qed
      qed
    next
      case nk: False
      show ?thesis
      proof (cases "c = 0x22")
        case True
        then obtain x where x: "parse_string_chars cs = Some (x, r)"
          using p Cons nb nk by auto
        have "outside_run s (0x22 # cs)" using whole True by simp
        then show ?thesis using x by (rule outside_run_string)
      next
        case nq: False
        have "(take 4 (c # cs) = js ''true'' \<and> r = drop 3 cs)
              \<or> (take 5 (c # cs) = js ''false'' \<and> r = drop 4 cs)
              \<or> (take 4 (c # cs) = js ''null'' \<and> r = drop 3 cs)
              \<or> (\<exists>x. parse_number (c # cs) = Some (x, r))"
          using p Cons nb nk nq by (auto split: if_splits)
        then have "outside_run (c # cs) r"
        proof (elim disjE exE conjE)
          assume t: "take 4 (c # cs) = js ''true''" and r: "r = drop 3 cs"
          have "outside_run (c # cs) (drop (length (js ''true'')) (c # cs))"
            by (rule outside_run_literal) (simp_all only: literal_lengths t literal_runs)
          then show ?thesis by (simp add: r literal_lengths)
        next
          assume t: "take 5 (c # cs) = js ''false''" and r: "r = drop 4 cs"
          have "outside_run (c # cs) (drop (length (js ''false'')) (c # cs))"
            by (rule outside_run_literal) (simp_all only: literal_lengths t literal_runs)
          then show ?thesis by (simp add: r literal_lengths)
        next
          assume t: "take 4 (c # cs) = js ''null''" and r: "r = drop 3 cs"
          have "outside_run (c # cs) (drop (length (js ''null'')) (c # cs))"
            by (rule outside_run_literal) (simp_all only: literal_lengths t literal_runs)
          then show ?thesis by (simp add: r literal_lengths)
        next
          fix x
          assume "parse_number (c # cs) = Some (x, r)"
          then show ?thesis by (rule outside_run_number)
        qed
        with whole show ?thesis by (rule outside_run_trans)
      qed
    qed
  qed
qed

lemma parse_elements_Suc_run:
  assumes V: "\<And>s v r. parse_value n s = Some (v, r) \<Longrightarrow> outside_run s r"
    and E: "\<And>s vs r. parse_elements n s = Some (vs, r) \<Longrightarrow> outside_run s r"
    and p: "parse_elements (Suc n) s = Some (vs, r)"
  shows "outside_run s r"
proof (cases "parse_value n s")
  case None
  then show ?thesis using p by simp
next
  case (Some a)
  obtain v r1 where a: "a = (v, r1)" by (cases a)
  have r1: "outside_run s r1" using V Some a by blast
  show ?thesis
  proof (cases "skip_ws r1")
    case Nil
    then show ?thesis using p Some a by simp
  next
    case (Cons c cs)
    have c: "c = 0x2C \<or> c = 0x5D" using p Some a Cons by (auto split: if_splits)
    have "outside_run r1 cs" by (rule outside_run_skip_Cons [OF Cons]) (use c in auto)
    with r1 have cs: "outside_run s cs" by (rule outside_run_trans)
    show ?thesis
    proof (cases "c = 0x2C")
      case True
      then obtain ws where "parse_elements n cs = Some (ws, r)"
        using p Some a Cons by auto
      then have "outside_run cs r" by (rule E)
      with cs show ?thesis by (rule outside_run_trans)
    next
      case False
      then have "r = cs" using p Some a Cons by (auto split: if_splits)
      then show ?thesis using cs by simp
    qed
  qed
qed

lemma parse_members_Suc_run:
  assumes V: "\<And>s v r. parse_value n s = Some (v, r) \<Longrightarrow> outside_run s r"
    and M: "\<And>s ms r. parse_members n s = Some (ms, r) \<Longrightarrow> outside_run s r"
    and p: "parse_members (Suc n) s = Some (ms, r)"
  shows "outside_run s r"
proof (cases "skip_ws s")
  case Nil
  then show ?thesis using p by simp
next
  case (Cons q ks)
  have q: "q = 0x22" using p Cons by (auto split: if_splits)
  have whole: "outside_run s (0x22 # ks)" using outside_run_skip_ws [of s] Cons q by simp
  show ?thesis
  proof (cases "parse_string_chars ks")
    case None
    then show ?thesis using p Cons q by simp
  next
    case (Some a)
    obtain k r1 where a: "a = (k, r1)" by (cases a)
    have "parse_string_chars ks = Some (k, r1)" using Some a by simp
    with whole have r1: "outside_run s r1" by (rule outside_run_string)
    show ?thesis
    proof (cases "skip_ws r1")
      case Nil
      then show ?thesis using p Cons q Some a by simp
    next
      case colon: (Cons c cs)
      have c: "c = 0x3A" using p Cons q Some a colon by (auto split: if_splits)
      have "outside_run r1 cs" by (rule outside_run_skip_Cons [OF colon]) (simp add: c)
      with r1 have cs: "outside_run s cs" by (rule outside_run_trans)
      show ?thesis
      proof (cases "parse_value n cs")
        case None
        then show ?thesis using p Cons q Some a colon c by simp
      next
        case val: (Some b)
        obtain v r2 where b: "b = (v, r2)" by (cases b)
        have "outside_run cs r2" using V val b by blast
        with cs have r2: "outside_run s r2" by (rule outside_run_trans)
        show ?thesis
        proof (cases "skip_ws r2")
          case Nil
          then show ?thesis using p Cons q Some a colon c val b by simp
        next
          case sep: (Cons d ds)
          have d: "d = 0x2C \<or> d = 0x7D"
            using p Cons q Some a colon c val b sep by (auto split: if_splits)
          have "outside_run r2 ds" by (rule outside_run_skip_Cons [OF sep]) (use d in auto)
          with r2 have ds: "outside_run s ds" by (rule outside_run_trans)
          show ?thesis
          proof (cases "d = 0x2C")
            case True
            then obtain ns where "parse_members n ds = Some (ns, r)"
              using p Cons q Some a colon c val b sep by auto
            then have "outside_run ds r" by (rule M)
            with ds show ?thesis by (rule outside_run_trans)
          next
            case False
            then have "r = ds" using p Cons q Some a colon c val b sep by (auto split: if_splits)
            then show ?thesis using ds by simp
          qed
        qed
      qed
    qed
  qed
qed

lemma parser_run:
  "(\<forall>s v r. parse_value n s = Some (v, r) \<longrightarrow> outside_run s r)
   \<and> (\<forall>s vs r. parse_elements n s = Some (vs, r) \<longrightarrow> outside_run s r)
   \<and> (\<forall>s ms r. parse_members n s = Some (ms, r) \<longrightarrow> outside_run s r)"
proof (induction n)
  case 0
  show ?case by simp
next
  case (Suc n)
  have V: "\<And>s v r. parse_value n s = Some (v, r) \<Longrightarrow> outside_run s r"
    and E: "\<And>s vs r. parse_elements n s = Some (vs, r) \<Longrightarrow> outside_run s r"
    and M: "\<And>s ms r. parse_members n s = Some (ms, r) \<Longrightarrow> outside_run s r"
    using Suc by blast+
  have "outside_run s r" if "parse_value (Suc n) s = Some (v, r)" for s v r
    using M E that by (rule parse_value_Suc_run [where n = n])
  moreover have "outside_run s r" if "parse_elements (Suc n) s = Some (vs, r)" for s vs r
    using V E that by (rule parse_elements_Suc_run [where n = n])
  moreover have "outside_run s r" if "parse_members (Suc n) s = Some (ms, r)" for s ms r
    using V M that by (rule parse_members_Suc_run [where n = n])
  ultimately show ?case by blast
qed

lemma JSON_parse_run:
  assumes "JSON_parse s = Some v"
  shows "lex_scan Outside s = Outside"
proof -
  obtain r where p: "parse_value (2 * length s + 2) s = Some (v, r)" and r: "skip_ws r = []"
    using assms by (auto simp: JSON_parse_def split: option.splits if_splits)
  obtain c where c: "s = c @ r" "lex_scan Outside c = Outside"
    using parser_run [of "2 * length s + 2"] p by blast
  have "list_all is_json_ws r" using r by (simp add: skip_ws_def dropWhile_eq_Nil_conv list_all_iff)
  then have "lex_scan Outside r = Outside"
    by (intro lex_scan_stays json_ws_outside) (simp add: list_all_iff)
  then show ?thesis using c by (simp add: lex_scan_append)
qed

lemma lex_scan_flip:
  assumes "lex_scan a s = Outside" and "lex_scan b s = Outside"
    and "a = Invalid \<or> b = Invalid \<or> (a = Inside \<and> b = Outside) \<or> (a = Outside \<and> b = Inside)"
  shows False
  using assms
proof (induction s arbitrary: a b)
  case Nil
  then show ?case by (auto simp: lex_scan_Nil)
next
  case (Cons c s)
  have "lex_step a c = Invalid \<or> lex_step b c = Invalid
        \<or> (lex_step a c = Inside \<and> lex_step b c = Outside)
        \<or> (lex_step a c = Outside \<and> lex_step b c = Inside)"
    using Cons.prems(3) by (auto split: if_splits)
  moreover have "lex_scan (lex_step a c) s = Outside" "lex_scan (lex_step b c) s = Outside"
    using Cons.prems(1,2) by (simp_all only: lex_scan_Cons)
  ultimately show ?case using Cons.IH [of "lex_step a c" "lex_step b c"] by blast
qed


section \<open>Properties of the token budget\<close>

lemma estimateTokens_div: "estimateTokens text = (length text + 3) div 4"
  unfolding estimateTokens_def by linarith

lemma over_budget_length:
  assumes "maxTokens < estimateTokens content"
  shows "maxTokens * 4 < length content"
  using assms unfolding estimateTokens_div by linarith

lemma firstPortion_eq: "\<lfloor>real n * 0.6\<rfloor> = int ((n * 6) div 10)"
proof -
  have "\<lfloor>real n * 0.6\<rfloor> = \<lfloor>real (n * 6) / real 10\<rfloor>"
    by (rule arg_cong [where f = floor]) simp
  also have "\<dots> = int ((n * 6) div 10)" by (rule floor_divide_of_nat_eq)
  finally show ?thesis .
qed

lemma lastPortion_eq: "\<lfloor>real n * 0.2\<rfloor> = int ((n * 2) div 10)"
proof -
  have "\<lfloor>real n * 0.2\<rfloor> = \<lfloor>real (n * 2) / real 10\<rfloor>"
    by (rule arg_cong [where f = floor]) simp
  also have "\<dots> = int ((n * 2) div 10)" by (rule floor_divide_of_nat_eq)
  finally show ?thesis .
qed

lemma truncateContent_over:
  assumes "maxTokens < estimateTokens content"
  shows "truncateContent content maxTokens =
           take ((maxTokens * 4 * 6) div 10) content @ marker
           @ drop (length content - (maxTokens * 4 * 2) div 10) content"
proof -
  have len: "maxTokens * 4 < length content" by (rule over_budget_length [OF assms])
  have a: "clamp_index content (int ((maxTokens * 4 * 6) div 10)) = (maxTokens * 4 * 6) div 10"
    using len by (simp add: clamp_index_def)
  have b: "clamp_index content (int (length content) - int ((maxTokens * 4 * 2) div 10))
             = length content - (maxTokens * 4 * 2) div 10"
    using len by (simp add: clamp_index_def)
  have z: "clamp_index content 0 = 0" by (simp add: clamp_index_def)
  have ne: "\<not> estimateTokens content \<le> maxTokens" using assms by simp
  have "truncateContent content maxTokens =
          substring content 0 \<lfloor>real (maxTokens * 4) * 0.6\<rfloor> @ marker
          @ substring_from content (int (length content) - \<lfloor>real (maxTokens * 4) * 0.2\<rfloor>)"
    using ne by (simp only: truncateContent_def Let_def if_False)
  also have "\<dots> = substring content 0 (int ((maxTokens * 4 * 6) div 10)) @ marker
          @ substring_from content (int (length content) - int ((maxTokens * 4 * 2) div 10))"
    by (simp only: firstPortion_eq lastPortion_eq)
  also have "\<dots> = take ((maxTokens * 4 * 6) div 10) content @ marker
           @ drop (length content - (maxTokens * 4 * 2) div 10) content"
    by (simp only: substring_def substring_from_def a b z Let_def) simp
  finally show ?thesis .
qed


lemma length_marker: "length marker = 49"
  by (simp add: marker_def js_def)

lemma take_drop_reaches:
  assumes "take n (drop i r) = m" and "length m = n" and "0 < n"
  shows "i + n \<le> length r"
proof -
  have "min (length r - i) n = n" using assms(1,2) by (metis length_take length_drop)
  then show ?thesis using assms(3) by linarith
qed

lemma occurs_at_marker_inserted: "occurs_at marker (hd_part @ marker @ tl_part) (length hd_part)"
  by (simp add: occurs_at_def)

lemma filter_upt_single:
  assumes "h < n" and "P h" and "\<And>i. i < n \<Longrightarrow> P i \<Longrightarrow> i = h"
  shows "length (filter P [0..<n]) = 1"
proof -
  have "{x. P x} \<inter> set [0..<n] = {h}"
  proof (rule set_eqI)
    fix x
    show "x \<in> {x. P x} \<inter> set [0..<n] \<longleftrightarrow> x \<in> {h}"
      using assms(1) assms(2) assms(3) [of x] by auto
  qed
  moreover have "length (filter P [0..<n]) = card ({x. P x} \<inter> set [0..<n])"
    by (rule distinct_length_filter) simp
  ultimately show ?thesis by simp
qed

lemma marker_parts: "marker = marker_head @ marker_core @ marker_head"
  by (simp add: marker_def marker_head_def marker_core_def js_def)

lemma length_marker_core: "length marker_core = 45"
  by (simp add: marker_core_def js_def)

lemma length_marker_head: "length marker_head = 2"
  by (simp add: marker_head_def js_def)

lemma marker_head_feeds: "marker_head = [0x0A, 0x0A]"
  by (simp add: marker_head_def js_def u_def)

lemma no_feed_in_core: "0x0A \<notin> set marker_core"
  by (simp add: marker_core_def js_def u_def)

lemma contains_iff:
  assumes "pat \<noteq> []"
  shows "contains s pat \<longleftrightarrow> (\<exists>i. occurs_at pat s i)"
proof
  assume "contains s pat"
  then show "\<exists>i. occurs_at pat s i" unfolding contains_def by blast
next
  assume "\<exists>i. occurs_at pat s i"
  then obtain i where i: "occurs_at pat s i" ..
  have "i \<le> length s"
  proof (rule ccontr)
    assume "\<not> i \<le> length s"
    then have "drop i s = []" by simp
    with i assms show False by (simp add: occurs_at_def)
  qed
  then have "i < Suc (length s)" by linarith
  then have "i \<in> set [0..<Suc (length s)]" by (simp only: set_upt atLeastLessThan_iff) simp
  then show "contains s pat" using i unfolding contains_def by blast
qed

lemma occurs_at_reaches:
  assumes "occurs_at pat s i"
  shows "i + length pat \<le> length s \<or> pat = []"
proof (cases "pat = []")
  case True
  then show ?thesis by simp
next
  case False
  have "take (length pat) (drop i s) = pat" using assms by (simp only: occurs_at_def)
  then have "i + length pat \<le> length s" using False by (intro take_drop_reaches) simp_all
  then show ?thesis by simp
qed

lemma occurs_at_nth:
  assumes "occurs_at pat s i" and "k < length pat"
  shows "s ! (i + k) = pat ! k"
proof -
  have r: "i + length pat \<le> length s" using occurs_at_reaches [OF assms(1)] assms(2) by auto
  have "pat ! k = take (length pat) (drop i s) ! k" using assms(1) by (simp only: occurs_at_def)
  also have "\<dots> = s ! (i + k)" using assms(2) r by simp
  finally show ?thesis by simp
qed

lemma occurs_at_avoids:
  assumes occ: "occurs_at pat s i" and c: "c \<notin> set pat" and p: "s ! p = c"
  shows "p < i \<or> i + length pat \<le> p"
proof (rule ccontr)
  assume "\<not> (p < i \<or> i + length pat \<le> p)"
  then have a: "i \<le> p" and b: "p - i < length pat" by auto
  have "s ! (i + (p - i)) = pat ! (p - i)" by (rule occurs_at_nth [OF occ b])
  then have "pat ! (p - i) = c" using a p by simp
  moreover have "pat ! (p - i) \<in> set pat" using b by (rule nth_mem)
  ultimately show False using c by simp
qed

lemma occurs_at_in_front:
  assumes "occurs_at pat (a @ b) i" and "i + length pat \<le> length a"
  shows "occurs_at pat a i"
  using assms by (simp add: occurs_at_def)

lemma occurs_at_behind:
  assumes "occurs_at pat (a @ b) i" and "length a \<le> i"
  shows "occurs_at pat b (i - length a)"
  using assms by (simp add: occurs_at_def)

lemma occurs_at_take:
  assumes "occurs_at pat (take h s) i"
  shows "occurs_at pat s i"
proof (cases "pat = []")
  case True
  then show ?thesis by (simp add: occurs_at_def)
next
  case False
  have r: "i + length pat \<le> length (take h s)" using occurs_at_reaches [OF assms] False by simp
  have "i + length pat \<le> h" using r by simp
  then have "length pat \<le> h - i" by linarith
  then have "take (length pat) (drop i (take h s)) = take (length pat) (drop i s)"
    by (simp add: drop_take min_def)
  then show ?thesis using assms by (simp only: occurs_at_def)
qed

lemma occurs_at_drop:
  assumes "occurs_at pat (drop d s) i"
  shows "occurs_at pat s (i + d)"
  using assms by (simp add: occurs_at_def add.commute)

lemma contains_slice:
  assumes "pat \<noteq> []" and "\<not> contains s pat"
  shows "\<not> contains (take h s) pat" and "\<not> contains (drop d s) pat"
  using assms occurs_at_take occurs_at_drop by (metis contains_iff)+

lemma marker_core_position:
  assumes nh: "\<not> contains hd_part marker_core" and nt: "\<not> contains tl_part marker_core"
    and occ: "occurs_at marker_core (hd_part @ marker @ tl_part) j"
  shows "j = length hd_part + 2"
proof -
  define h where "h = length hd_part"
  define res where "res = hd_part @ marker @ tl_part"
  have ne: "marker_core \<noteq> []" by (simp add: marker_core_def js_def)
  have res_eq: "res = hd_part @ [0x0A, 0x0A] @ marker_core @ [0x0A, 0x0A] @ tl_part"
    by (simp add: res_def marker_parts marker_head_feeds)
  have n0: "res ! h = 0x0A"
    unfolding res_eq h_def by (simp only: nth_append_length append_Cons append_Nil)
  have n1: "res ! (h + 1) = 0x0A"
    unfolding res_eq h_def by (simp only: nth_append_length_plus append_Cons append_Nil) simp
  define a where "a = hd_part @ [0x0A, 0x0A] @ marker_core"
  have la: "length a = h + 47" by (simp add: a_def h_def length_marker_core)
  have res_a: "res = a @ [0x0A, 0x0A] @ tl_part" by (simp add: res_eq a_def)
  have "res ! length a = 0x0A"
    unfolding res_a by (simp only: nth_append_length append_Cons append_Nil)
  then have n47: "res ! (h + 47) = 0x0A" by (simp only: la)
  have "res ! (length a + 1) = 0x0A"
    unfolding res_a by (simp only: nth_append_length_plus append_Cons append_Nil) simp
  moreover have "length a + 1 = h + 48" using la by linarith
  ultimately have n48: "res ! (h + 48) = 0x0A" by (simp only:)
  from occ have o: "occurs_at marker_core res j" by (simp only: res_def)
  note av = occurs_at_avoids [OF o no_feed_in_core, unfolded length_marker_core]
  have d0: "h < j \<or> j + 45 \<le> h" by (rule av [OF n0])
  have d1: "h + 1 < j \<or> j + 45 \<le> h + 1" by (rule av [OF n1])
  have d47: "h + 47 < j \<or> j + 45 \<le> h + 47" by (rule av [OF n47])
  have d48: "h + 48 < j \<or> j + 45 \<le> h + 48" by (rule av [OF n48])
  from d0 d1 d47 d48
  consider "j + 45 \<le> h" | "j = h + 2" | "h + 49 \<le> j" by linarith
  then show ?thesis
  proof cases
    case 1
    then have "j + length marker_core \<le> length hd_part" by (simp only: h_def length_marker_core)
    with occ have "occurs_at marker_core hd_part j" by (rule occurs_at_in_front)
    then have "contains hd_part marker_core" using ne contains_iff by blast
    then show ?thesis using nh by simp
  next
    case 2
    then show ?thesis by (simp only: h_def)
  next
    case 3
    have occ': "occurs_at marker_core ((hd_part @ marker) @ tl_part) j" using occ by simp
    have "length (hd_part @ marker) \<le> j" using 3 by (simp add: h_def length_marker)
    with occ' have "occurs_at marker_core tl_part (j - length (hd_part @ marker))"
      by (rule occurs_at_behind)
    then have "contains tl_part marker_core" using ne contains_iff by blast
    then show ?thesis using nt by simp
  qed
qed

lemma marker_holds_core:
  assumes "occurs_at marker s i"
  shows "occurs_at marker_core s (i + 2)"
proof -
  have tk: "take 49 (drop i s) = marker"
    using assms by (simp only: occurs_at_def length_marker)
  have "take 45 (drop 2 (take 49 (drop i s))) = take 45 (drop 2 marker)"
    by (simp only: tk)
  moreover have "take 45 (drop 2 marker) = marker_core"
    by (simp add: marker_parts marker_head_feeds length_marker_core)
  moreover have "take 45 (drop 2 (take 49 (drop i s))) = take 45 (drop (i + 2) s)"
    by (simp add: drop_take add.commute)
  ultimately have "take 45 (drop (i + 2) s) = marker_core" by (simp only:)
  then show ?thesis by (simp only: occurs_at_def length_marker_core)
qed

lemma occurrences_marker_one:
  assumes "\<not> contains hd_part marker_core" and "\<not> contains tl_part marker_core"
  shows "occurrences marker (hd_part @ marker @ tl_part) = 1"
  unfolding occurrences_def
proof (rule filter_upt_single)
  show "length hd_part < Suc (length (hd_part @ marker @ tl_part))" by simp
  show "occurs_at marker (hd_part @ marker @ tl_part) (length hd_part)"
    by (rule occurs_at_marker_inserted)
  fix i
  assume "occurs_at marker (hd_part @ marker @ tl_part) i"
  then have "occurs_at marker_core (hd_part @ marker @ tl_part) (i + 2)"
    by (rule marker_holds_core)
  then have "i + 2 = length hd_part + 2" by (rule marker_core_position [OF assms])
  then show "i = length hd_part" by linarith
qed

lemma checklist_free: "\<not> contains checklist marker_core"
  by code_simp

lemma checklist_bracket: "u CHR ''['' \<in> set checklist"
  by code_simp

lemma checklist_length: "length checklist = 110"
  by code_simp

text \<open>
  C3, as stated, at a document of 109 characters that begins with the marker text and a
  budget of 25 tokens: the head slice of 60 characters already holds one marker, the
  inserted marker is a second one.
\<close>

theorem truncateContent_marker_twice:
  "25 < estimateTokens repeated_marker
   \<and> occurrences marker (truncateContent repeated_marker 25) = 2"
proof -
  have over: "25 < estimateTokens repeated_marker"
    by (simp add: estimateTokens_div repeated_marker_def length_marker)
  have "truncateContent repeated_marker 25
          = take 60 repeated_marker @ marker @ drop (length repeated_marker - 20) repeated_marker"
    using truncateContent_over [OF over] by simp
  moreover have "occurrences marker
      (take 60 repeated_marker @ marker @ drop (length repeated_marker - 20) repeated_marker) = 2"
    by code_simp
  ultimately show ?thesis using over by simp
qed

text \<open>
  C3, amended.  When the estimate of \<open>content\<close> exceeds \<open>maxTokens\<close>, the result is the first
  \<open>floor(maxTokens*4*0.6)\<close> characters of \<open>content\<close>, then the marker, then the last
  \<open>floor(maxTokens*4*0.2)\<close> characters of \<open>content\<close> (from index
  \<open>length - floor(maxTokens*4*0.2)\<close>): both slices have exactly these lengths, and the
  marker occurs at the offset where the head slice ends.  It is the only occurrence
  whenever \<open>content\<close> does not contain the bracketed text of the marker,
  \<open>[... middle section truncated for length ...]\<close>.
\<close>

theorem truncateContent_over_budget:
  assumes "maxTokens < estimateTokens content"
  shows "truncateContent content maxTokens
           = take (nat \<lfloor>real (maxTokens * 4) * 0.6\<rfloor>) content @ marker
             @ drop (length content - nat \<lfloor>real (maxTokens * 4) * 0.2\<rfloor>) content
         \<and> length (take (nat \<lfloor>real (maxTokens * 4) * 0.6\<rfloor>) content)
             = nat \<lfloor>real (maxTokens * 4) * 0.6\<rfloor>
         \<and> length (drop (length content - nat \<lfloor>real (maxTokens * 4) * 0.2\<rfloor>) content)
             = nat \<lfloor>real (maxTokens * 4) * 0.2\<rfloor>
         \<and> occurs_at marker (truncateContent content maxTokens)
               (nat \<lfloor>real (maxTokens * 4) * 0.6\<rfloor>)
         \<and> (\<not> contains content marker_core
              \<longrightarrow> occurrences marker (truncateContent content maxTokens) = 1)"
proof -
  define h where "h = (maxTokens * 4 * 6) div 10"
  define t where "t = (maxTokens * 4 * 2) div 10"
  have hf: "nat \<lfloor>real (maxTokens * 4) * 0.6\<rfloor> = h"
    by (simp only: firstPortion_eq h_def nat_int)
  have tf: "nat \<lfloor>real (maxTokens * 4) * 0.2\<rfloor> = t"
    by (simp only: lastPortion_eq t_def nat_int)
  have len: "maxTokens * 4 < length content" by (rule over_budget_length [OF assms])
  have hl: "h \<le> length content" and tl: "t \<le> length content"
    using len unfolding h_def t_def by linarith+
  have eq: "truncateContent content maxTokens
              = take h content @ marker @ drop (length content - t) content"
    unfolding h_def t_def by (rule truncateContent_over [OF assms])
  have lh: "length (take h content) = h" using hl by simp
  have lt: "length (drop (length content - t) content) = t" using tl by simp
  have occ: "occurs_at marker (truncateContent content maxTokens) h"
    using occurs_at_marker_inserted [of "take h content" "drop (length content - t) content"]
    by (simp only: eq lh)
  have one: "occurrences marker (truncateContent content maxTokens) = 1"
    if free: "\<not> contains content marker_core"
  proof -
    have ne: "marker_core \<noteq> []" by (simp add: marker_core_def js_def)
    have "\<not> contains (take h content) marker_core"
      by (rule contains_slice(1) [OF ne free])
    moreover have "\<not> contains (drop (length content - t) content) marker_core"
      by (rule contains_slice(2) [OF ne free])
    ultimately show ?thesis unfolding eq by (rule occurrences_marker_one)
  qed
  show ?thesis unfolding hf tf using eq lh lt occ one by blast
qed

theorem truncateContent_over_budget_witness:
  "25 < estimateTokens checklist
   \<and> u CHR ''['' \<in> set checklist
   \<and> \<not> contains checklist marker_core
   \<and> truncateContent checklist 25 = take 60 checklist @ marker @ drop 90 checklist
   \<and> occurs_at marker (truncateContent checklist 25) 60
   \<and> occurrences marker (truncateContent checklist 25) = 1"
proof -
  have over: "25 < estimateTokens checklist"
    by (simp add: estimateTokens_div checklist_length)
  have h: "nat \<lfloor>real (25 * 4) * 0.6\<rfloor> = 60" and t: "nat \<lfloor>real (25 * 4) * 0.2\<rfloor> = 20"
    by simp_all
  note th = truncateContent_over_budget [OF over, unfolded h t checklist_length]
  have eq: "truncateContent checklist 25 = take 60 checklist @ marker @ drop 90 checklist"
    using th by simp
  have at: "occurs_at marker (truncateContent checklist 25) 60"
    using th by blast
  have one: "occurrences marker (truncateContent checklist 25) = 1"
    using th checklist_free by blast
  show ?thesis using over checklist_bracket checklist_free eq at one by blast
qed

text \<open>
  C7.  For every string, \<open>estimateTokens\<close> is the ceiling of a quarter of its length in code
  units, that is \<open>(length + 3) div 4\<close>; the empty string is estimated at 0 tokens.  The
  function reads nothing but its argument.
\<close>

theorem estimateTokens_ceiling:
  "int (estimateTokens (text :: jsstring)) = \<lceil>real (length text) / 4\<rceil>
   \<and> estimateTokens text = (length text + 3) div 4
   \<and> estimateTokens ([] :: jsstring) = 0"
proof -
  have "(0::int) \<le> \<lceil>real (length text) / 4\<rceil>" by simp
  then have "int (estimateTokens text) = \<lceil>real (length text) / 4\<rceil>"
    unfolding estimateTokens_def by simp
  moreover have "estimateTokens ([] :: jsstring) = 0" by (simp add: estimateTokens_def)
  ultimately show ?thesis using estimateTokens_div [of "text"] by simp
qed

text \<open>
  C4.  When the estimate of \<open>content\<close> is within \<open>maxTokens\<close>, \<open>truncateContent\<close> returns
  \<open>content\<close> itself; so the marker occurs in the result exactly as often as it occurs in
  \<open>content\<close>, and not at all unless \<open>content\<close> already has it.
\<close>

theorem truncateContent_within_budget:
  assumes "estimateTokens content \<le> maxTokens"
  shows "truncateContent content maxTokens = content
         \<and> occurrences marker (truncateContent content maxTokens) = occurrences marker content
         \<and> contains (truncateContent content maxTokens) marker = contains content marker"
  using assms by (simp add: truncateContent_def)

theorem truncateContent_within_budget_witness:
  "estimateTokens (js ''hello'') \<le> 22000
   \<and> truncateContent (js ''hello'') 22000 = js ''hello''"
proof -
  have h: "estimateTokens (js ''hello'') \<le> 22000" by (simp add: estimateTokens_div js_def)
  show ?thesis using h truncateContent_within_budget [OF h] by simp
qed

section \<open>Properties of the stream reframer\<close>

lemma process_line_other:
  "\<not> starts_with line (js ''data: '') \<Longrightarrow> process_line rt buf line = buf"
  by (simp add: process_line_def)

lemma process_line_empty: "process_line rt buf [] = buf"
  by (rule process_line_other) (simp add: starts_with_def js_def)

lemma process_line_dropped:
  "JSON_parse (trim (drop 6 line)) = None \<Longrightarrow> trim (drop 6 line) \<noteq> js ''[DONE]''
     \<Longrightarrow> process_line rt buf line = buf"
  by (simp add: process_line_def Let_def)

lemma hi_line_parts:
  "starts_with hi_line (js ''data: '')"
  "trim (drop 6 hi_line) \<noteq> js ''[DONE]''"
  "trim (drop 6 hi_line) \<noteq> []"
  "JSON_parse (trim (drop 6 hi_line)) =
     Some (JObj [(js ''choices'', JArr [JObj [(js ''delta'', JObj [(js ''content'', JStr (js ''hi''))])]])])"
  "delta_content (JObj [(js ''choices'', JArr [JObj [(js ''delta'', JObj [(js ''content'', JStr (js ''hi''))])]])])
     = Some (Some (JStr (js ''hi'')))"
  by code_simp+

lemma content_frame_string:
  "content_frame rt (JStr s) =
     js ''data: '' @ js ''{'' @ quote (js ''content'') @ js '':'' @ quote s @ js ''}''
     @ js ''\<newline>\<newline>''"
  by (simp add: content_frame_def object_literal_def List.map_filter_def)

lemma hi_frame_eq: "content_frame rt (JStr (js ''hi'')) = hi_frame"
  unfolding content_frame_string by code_simp

lemma hi_truthy: "truthy rt (Some (JStr (js ''hi'')))"
  by (simp add: js_def)

lemma process_hi_line: "process_line rt buf hi_line = buf @ hi_frame"
  by (simp add: process_line_def Let_def hi_line_parts hi_frame_eq hi_truthy del: truthy.simps)

lemma done_line_parts:
  "starts_with done_line (js ''data: '')"
  "trim (drop 6 done_line) = js ''[DONE]''"
  by code_simp+

lemma process_done_line: "process_line rt buf done_line = buf @ done_frame"
  by (simp add: process_line_def Let_def done_line_parts)

lemma foldl_on_data:
  "foldl (on_data rt) buf chunks = foldl (process_line rt) buf (concat (map split_nl chunks))"
  by (induction chunks arbitrary: buf) (simp_all add: on_data_def)

lemma foldl_skip_empty:
  "foldl (process_line rt) buf ls = foldl (process_line rt) buf (filter (\<lambda>l. l \<noteq> []) ls)"
  by (induction ls arbitrary: buf) (simp_all add: process_line_empty)

lemma streaming_data:
  "foldl (on_event rt) (Streaming buf n) (map Data chunks)
     = Streaming (foldl (on_data rt) buf chunks) (n + length chunks)"
  by (induction chunks arbitrary: buf n) simp_all


lemma split_nl_nonempty: "split_nl s \<noteq> []"
  by (induction s) (auto split: list.splits)

lemma split_nl_plain: "0x0A \<notin> set y \<Longrightarrow> split_nl y = [y]"
  by (induction y) auto

lemma split_nl_newline: "split_nl (x @ 0x0A # y) = split_nl x @ split_nl y"
proof (induction x)
  case Nil
  show ?case by simp
next
  case (Cons c x)
  obtain l ls where sx: "split_nl x = l # ls"
    using split_nl_nonempty [of x] by (cases "split_nl x") auto
  show ?case using Cons sx by simp
qed

lemma split_nl_tail:
  assumes "0x0A \<notin> set y"
  shows "split_nl (x @ y) = butlast (split_nl x) @ [last (split_nl x) @ y]"
proof (induction x)
  case Nil
  show ?case using assms by (simp add: split_nl_plain)
next
  case (Cons c x)
  obtain l ls where sx: "split_nl x = l # ls"
    using split_nl_nonempty [of x] by (cases "split_nl x") auto
  show ?case
  proof (cases "ls = []")
    case True
    then show ?thesis using Cons sx by simp
  next
    case False
    then show ?thesis using Cons sx by (simp split: list.splits)
  qed
qed

lemma last_split_nl:
  assumes "pre = [] \<or> last pre = 0x0A"
  shows "last (split_nl pre) = []"
proof (cases "pre = []")
  case True
  then show ?thesis by simp
next
  case False
  with assms have "pre = butlast pre @ [0x0A]" by (metis append_butlast_last_id)
  then have "split_nl pre = split_nl (butlast pre) @ [[]]"
    using split_nl_newline [of "butlast pre" "[]"] by simp
  then show ?thesis by simp
qed

lemma on_data_pieces:
  assumes "pre = [] \<or> last pre = 0x0A" and "0x0A \<notin> set piece"
  shows "on_data rt buf (pre @ piece) = process_line rt (on_data rt buf pre) piece"
proof -
  have l: "last (split_nl pre) = []" by (rule last_split_nl [OF assms(1)])
  have s: "split_nl pre = butlast (split_nl pre) @ [[]]"
    using l split_nl_nonempty [of pre] by (metis append_butlast_last_id)
  have "on_data rt buf pre = foldl (process_line rt) buf (butlast (split_nl pre) @ [[]])"
    unfolding on_data_def using s by simp
  then have a: "on_data rt buf pre = foldl (process_line rt) buf (butlast (split_nl pre))"
    by (simp add: process_line_empty)
  have "split_nl (pre @ piece) = butlast (split_nl pre) @ [piece]"
    using split_nl_tail [OF assms(2), of pre] l by simp
  then show ?thesis unfolding on_data_def [of rt buf "pre @ piece"] a by simp
qed

lemma on_data_first_line:
  assumes "0x0A \<notin> set piece"
  shows "on_data rt buf (piece @ 0x0A # post) = on_data rt (process_line rt buf piece) post"
  unfolding on_data_def split_nl_newline using assms by (simp add: split_nl_plain)


lemma hi_cr_parts:
  "starts_with (hi_line @ [0x0D]) (js ''data: '')"
  "trim (drop 6 (hi_line @ [0x0D])) = trim (drop 6 hi_line)"
  "hd (split_nl (hi_line @ crlf_tail)) = hi_line @ [0x0D]"
  "concat (map split_nl [hi_line, crlf_tail]) = [hi_line, [0x0D], [0x0D], done_line @ [0x0D], [0x0D], []]"
  "\<not> starts_with [0x0D] (js ''data: '')"
  "starts_with (done_line @ [0x0D]) (js ''data: '')"
  "trim (drop 6 (done_line @ [0x0D])) = js ''[DONE]''"
  "hi_line \<noteq> []"
  by code_simp+

lemma process_hi_cr_line: "process_line rt buf (hi_line @ [0x0D]) = buf @ hi_frame"
  by (simp add: process_line_def Let_def hi_cr_parts hi_line_parts hi_frame_eq hi_truthy
      del: truthy.simps drop_append)

lemma process_done_cr_line: "process_line rt buf (done_line @ [0x0D]) = buf @ done_frame"
  by (simp add: process_line_def Let_def hi_cr_parts del: drop_append)

text \<open>
  C2, as stated, on a stream with CRLF line ends: the line \<open>data: {...}\<close> followed by a
  carriage return carries the content \<open>hi\<close>; split between the closing brace and the
  carriage return, its first piece is a complete payload, and the content frame is in the
  buffer all the same.
\<close>

theorem split_before_carriage_return_keeps_content:
  "hi_line \<noteq> [] \<and> [0x0D] \<noteq> ([] :: jsstring)
   \<and> hd (split_nl (hi_line @ crlf_tail)) = hi_line @ [0x0D]
   \<and> process_line sample_runtime [] (hi_line @ [0x0D]) = hi_frame
   \<and> reframe sample_runtime [hi_line, crlf_tail] = hi_frame @ done_frame"
proof -
  have "reframe sample_runtime [hi_line, crlf_tail]
          = foldl (process_line sample_runtime) [] (concat (map split_nl [hi_line, crlf_tail]))"
    unfolding reframe_def by (rule foldl_on_data)
  also have "\<dots> = hi_frame @ done_frame"
    unfolding hi_cr_parts(4)
    by (simp add: process_hi_line process_done_cr_line process_line_empty
        process_line_other [OF hi_cr_parts(5)])
  finally show ?thesis using hi_cr_parts(3,8) process_hi_cr_line [of sample_runtime "[]"] by simp
qed

lemma split_pieces:
  assumes "pre = [] \<or> last pre = 0x0A" and "0x0A \<notin> set first_piece"
    and "0x0A \<notin> set second_piece"
  shows "foldl (on_data rt) buf [pre @ first_piece, second_piece @ 0x0A # post]
           = on_data rt (process_line rt (process_line rt (on_data rt buf pre) first_piece)
                           second_piece) post"
  by (simp add: on_data_pieces [OF assms(1,2)] on_data_first_line [OF assms(3)])

lemma json_ws_is_js_ws: "is_json_ws c \<Longrightarrow> is_js_ws c"
  by (auto simp: is_json_ws_def is_js_ws_def)

lemma trim_keeps_head:
  assumes "\<not> is_js_ws c"
  shows "\<exists>p w. trim (c # t) = c # p \<and> c # t = (c # p) @ w"
proof -
  define dw where "dw = dropWhile is_js_ws (rev (c # t))"
  define tw where "tw = takeWhile is_js_ws (rev (c # t))"
  have tr: "trim (c # t) = rev dw" using assms by (simp add: trim_def dw_def)
  have parts: "rev (c # t) = tw @ dw" by (simp add: tw_def dw_def)
  then have whole: "c # t = rev dw @ rev tw" by (metis rev_append rev_rev_ident)
  have "c \<in> set (rev (c # t))" by simp
  then have "dw \<noteq> []" unfolding dw_def using assms by (auto simp: dropWhile_eq_Nil_conv)
  then have "rev dw \<noteq> []" by simp
  then obtain a p where rd: "rev dw = a # p" by (cases "rev dw") auto
  then have "a = c" using whole by simp
  then show ?thesis using tr rd whole by auto
qed

lemma JSON_parse_empty: "JSON_parse [] = None"
  by (simp add: JSON_parse_def skip_ws_def)

lemma done_literal: "js ''[DONE]'' = 0x5B # js ''DONE]''"
  by (simp add: js_def u_def)

lemma prefix_length: "length (js ''data: '') = 6"
  by (simp add: js_def)

lemma js_ws_plain: "is_js_ws c \<Longrightarrow> c \<noteq> 0x22 \<and> c \<noteq> 0x5C \<and> c \<noteq> 0x64"
  by (auto simp: is_js_ws_def)

lemma js_ws_outside: "is_js_ws c \<Longrightarrow> lex_step Outside c = Outside"
  using js_ws_plain [of c] by simp

lemma js_ws_inside: "is_js_ws c \<Longrightarrow> lex_step Inside c = Inside"
  using js_ws_plain [of c] by simp

lemma blank_scan:
  assumes "list_all is_js_ws w"
  shows "lex_scan Outside w = Outside" and "lex_scan Inside w = Inside"
  using assms by (auto intro!: lex_scan_stays js_ws_outside js_ws_inside simp: list_all_iff)

lemma blank_scan_end:
  assumes "list_all is_js_ws w" and "lex_scan st w = Outside"
  shows "st = Outside"
  using assms
proof (induction w arbitrary: st)
  case Nil
  then show ?case by (simp add: lex_scan_Nil)
next
  case (Cons c w)
  have "lex_step st c = Outside" using Cons by (simp add: lex_scan_Cons)
  moreover have "is_js_ws c" using Cons.prems(1) by simp
  ultimately show ?case using js_ws_plain [of c] by (cases st) (auto split: if_splits)
qed

lemma trim_parts:
  obtains lead trail where "lead @ trim s @ trail = s"
    and "list_all is_js_ws lead" and "list_all is_js_ws trail"
proof -
  define d where "d = dropWhile is_js_ws s"
  define blank where "blank = rev (takeWhile is_js_ws (rev d))"
  have s: "takeWhile is_js_ws s @ d = s" by (simp add: d_def)
  have "takeWhile is_js_ws (rev d) @ dropWhile is_js_ws (rev d) = rev d" by simp
  then have "rev (takeWhile is_js_ws (rev d) @ dropWhile is_js_ws (rev d)) = rev (rev d)"
    by (rule arg_cong)
  then have "rev (dropWhile is_js_ws (rev d)) @ blank = d"
    by (simp only: rev_append rev_rev_ident blank_def)
  then have d: "trim s @ blank = d" by (simp only: trim_def d_def)
  have a: "list_all is_js_ws (takeWhile is_js_ws s)"
    unfolding list_all_iff by (meson set_takeWhileD)
  have b: "list_all is_js_ws blank"
    unfolding list_all_iff blank_def set_rev by (meson set_takeWhileD)
  have "takeWhile is_js_ws s @ trim s @ blank = s" by (simp only: d s)
  then show ?thesis using a b by (rule that)
qed

lemma trim_last:
  assumes "trim s \<noteq> []"
  shows "\<not> is_js_ws (last (trim s))"
proof -
  define dw where "dw = dropWhile is_js_ws (rev (dropWhile is_js_ws s))"
  have t: "trim s = rev dw" by (simp add: trim_def dw_def)
  then have ne: "dw \<noteq> []" using assms by simp
  then have "\<not> is_js_ws (hd dw)" unfolding dw_def by (rule hd_dropWhile)
  moreover have "last (trim s) = hd dw" using ne t by (simp add: last_rev)
  ultimately show ?thesis by simp
qed

lemma trim_hd:
  assumes "trim s \<noteq> []"
  shows "\<not> is_js_ws (hd (trim s))"
proof -
  define d where "d = dropWhile is_js_ws s"
  define blank where "blank = rev (takeWhile is_js_ws (rev d))"
  have "takeWhile is_js_ws (rev d) @ dropWhile is_js_ws (rev d) = rev d" by simp
  then have "rev (takeWhile is_js_ws (rev d) @ dropWhile is_js_ws (rev d)) = rev (rev d)"
    by (rule arg_cong)
  then have "rev (dropWhile is_js_ws (rev d)) @ blank = d"
    by (simp only: rev_append rev_rev_ident blank_def)
  then have d: "trim s @ blank = d" by (simp only: trim_def d_def)
  have "hd (trim s @ blank) = hd (trim s)" using assms by (rule hd_append2)
  then have h: "hd d = hd (trim s)" by (simp only: d)
  have ne: "d \<noteq> []" using d assms by auto
  then have "\<not> is_js_ws (hd d)" unfolding d_def by (rule hd_dropWhile)
  with h show ?thesis by simp
qed

lemma trim_leading:
  assumes "list_all is_js_ws lead"
  shows "trim (lead @ s) = trim s"
proof -
  have "dropWhile is_js_ws (lead @ s) = dropWhile is_js_ws s"
    using assms by (intro dropWhile_append2) (simp add: list_all_iff)
  then show ?thesis by (simp add: trim_def)
qed

lemma trim_blank:
  assumes "list_all is_js_ws s"
  shows "trim s = []"
proof -
  have d: "dropWhile is_js_ws s = []" using assms by (induction s) simp_all
  show ?thesis unfolding trim_def d by simp
qed

lemma body_scan:
  assumes "JSON_parse (trim s) = Some v"
  shows "lex_scan Outside s = Outside"
proof -
  obtain lead trail where parts: "lead @ trim s @ trail = s"
    and lead: "list_all is_js_ws lead" and trail: "list_all is_js_ws trail"
    by (rule trim_parts)
  have "lex_scan Outside (lead @ trim s @ trail) = Outside"
    by (simp only: lex_scan_append blank_scan(1) [OF lead] JSON_parse_run [OF assms]
        blank_scan(1) [OF trail])
  then show ?thesis by (simp only: parts)
qed

lemma prefix_scan:
  "lex_scan st (js ''data: '') = (if st = Outside \<or> st = Invalid then Invalid else Inside)"
  by (cases st) (simp_all add: js_def u_def lex_scan_def)

lemma prefix_not_inside:
  assumes "0 < k" and "k < 6"
  shows "\<not> starts_with (drop k (js ''data: '' @ s)) (js ''data: '')"
proof -
  from assms have "k = 1 \<or> k = 2 \<or> k = 3 \<or> k = 4 \<or> k = 5" by linarith
  then show ?thesis
    by (elim disjE) (simp_all add: starts_with_def js_def u_def)
qed

lemma DONE_scan: "lex_scan Inside (js ''[DONE]'') = Inside"
  by (simp add: js_def u_def lex_scan_def)

lemma second_piece_dropped:
  assumes sw: "starts_with line (js ''data: '')"
    and whole: "JSON_parse (trim (drop 6 line)) = Some parsed"
    and k: "0 < k"
  shows "process_line rt buf (drop k line) = buf"
proof (cases "starts_with (drop k line) (js ''data: '')")
  case False
  then show ?thesis by (rule process_line_other)
next
  case True
  define s where "s = drop 6 line"
  have tk: "take 6 line = js ''data: ''" using sw by (simp add: starts_with_def prefix_length)
  have "take 6 line @ drop 6 line = line" by (rule append_take_drop_id)
  then have line: "js ''data: '' @ s = line" by (simp only: tk s_def)
  have k6: "6 \<le> k"
  proof (rule ccontr)
    assume "\<not> 6 \<le> k"
    then have "k < 6" by simp
    with k have "\<not> starts_with (drop k (js ''data: '' @ s)) (js ''data: '')"
      by (rule prefix_not_inside)
    then have "\<not> starts_with (drop k line) (js ''data: '')" unfolding line .
    then show False using True by blast
  qed
  define m where "m = k - 6"
  have km: "m + 6 = k" using k6 unfolding m_def by linarith
  have "drop m (drop 6 line) = drop (m + 6) line" by (rule drop_drop)
  then have piece: "drop k line = drop m s" by (simp only: km s_def)
  define t where "t = drop 6 (drop m s)"
  have "take 6 (drop k line) = js ''data: ''"
    using True by (simp add: starts_with_def prefix_length)
  then have tk2: "take 6 (drop m s) = js ''data: ''" by (simp only: piece)
  have "take 6 (drop m s) @ drop 6 (drop m s) = drop m s" by (rule append_take_drop_id)
  then have dm: "js ''data: '' @ t = drop m s" by (simp only: tk2 t_def)
  have "take m s @ drop m s = s" by (rule append_take_drop_id)
  then have parts: "take m s @ js ''data: '' @ t = s" by (simp only: dm)
  have sc: "lex_scan Outside s = Outside" using whole unfolding s_def by (rule body_scan)
  have "lex_scan Outside (take m s @ js ''data: '' @ t) = Outside" by (simp only: parts sc)
  then have "lex_scan (lex_scan (lex_scan Outside (take m s)) (js ''data: '')) t = Outside"
    by (simp only: lex_scan_append)
  then have ins: "lex_scan Inside t = Outside"
    unfolding prefix_scan by (simp add: lex_scan_Invalid split: if_splits)
  obtain lead trail where tp: "lead @ trim t @ trail = t"
    and lead: "list_all is_js_ws lead" and trail: "list_all is_js_ws trail"
    by (rule trim_parts)
  have "lex_scan Inside (lead @ trim t @ trail) = Outside" by (simp only: tp ins)
  then have "lex_scan (lex_scan Inside (trim t)) trail = Outside"
    by (simp only: lex_scan_append blank_scan(2) [OF lead])
  with trail have it: "lex_scan Inside (trim t) = Outside" by (rule blank_scan_end)
  have np: "JSON_parse (trim t) = None"
  proof (rule ccontr)
    assume "JSON_parse (trim t) \<noteq> None"
    then obtain v where "JSON_parse (trim t) = Some v" by auto
    then have "lex_scan Outside (trim t) = Outside" by (rule JSON_parse_run)
    with it show False by (rule lex_scan_flip) simp
  qed
  have nd: "trim t \<noteq> js ''[DONE]''" using it DONE_scan by auto
  have dd: "drop 6 (drop k line) = t" by (simp only: piece t_def)
  show ?thesis
  proof (rule process_line_dropped)
    show "JSON_parse (trim (drop 6 (drop k line))) = None" by (simp only: dd np)
    show "trim (drop 6 (drop k line)) \<noteq> js ''[DONE]''" unfolding dd by (rule nd)
  qed
qed

lemma parsed_object_text:
  assumes "JSON_parse s = Some (JObj props)"
  shows "\<exists>cs. skip_ws s = 0x7B # cs"
proof -
  obtain r where p: "parse_value (Suc (2 * length s + 1)) s = Some (JObj props, r)"
    using assms by (auto simp: JSON_parse_def split: option.splits if_splits)
  show ?thesis
  proof (cases "skip_ws s")
    case Nil
    then show ?thesis using p by simp
  next
    case (Cons c cs)
    show ?thesis
    proof (cases "c = 0x7B")
      case True
      then show ?thesis using Cons by simp
    next
      case False
      then show ?thesis using p Cons by (auto split: if_splits list.splits)
    qed
  qed
qed

lemma choices_no_index: "array_index (js ''choices'') = None"
  by (simp add: array_index_def canonical_int_def js_def u_def is_digit_def)

lemma delta_content_object:
  assumes "delta_content parsed = Some (Some c)"
  shows "\<exists>props. parsed = JObj props"
  using assms
  by (cases parsed) (simp_all add: delta_content_def element_at_def choices_no_index)

lemma first_piece_dropped:
  assumes whole: "JSON_parse (trim (drop 6 line)) = Some (JObj props)"
    and cut: "\<not> list_all is_js_ws (drop k line)"
  shows "JSON_parse (trim (drop 6 (take k line))) = None
         \<and> trim (drop 6 (take k line)) \<noteq> js ''[DONE]''"
proof (cases "k \<le> 6")
  case True
  then have "drop 6 (take k line) = []" by simp
  then show ?thesis by (simp add: trim_def JSON_parse_empty done_literal)
next
  case False
  define s where "s = drop 6 line"
  define n where "n = k - 6"
  define J where "J = trim s"
  have piece: "drop 6 (take k line) = take n s" by (simp add: s_def n_def drop_take)
  have second: "drop k line = drop n s" using False by (simp add: s_def n_def)
  obtain lead trail where parts: "lead @ J @ trail = s"
    and lead: "list_all is_js_ws lead" and trail: "list_all is_js_ws trail"
    unfolding J_def by (rule trim_parts)
  have J: "JSON_parse J = Some (JObj props)" using whole by (simp add: J_def s_def)
  then have ne: "J \<noteq> []" using JSON_parse_empty by auto
  have hdJ: "\<not> is_js_ws (hd J)" using ne unfolding J_def by (rule trim_hd)
  have lastJ: "\<not> is_js_ws (last J)" using ne unfolding J_def by (rule trim_last)
  have "\<not> is_json_ws (hd J)" using hdJ json_ws_is_js_ws by blast
  then have "skip_ws J = J" using ne by (cases J) (simp_all add: skip_ws_def)
  then obtain rest where Jb: "J = 0x7B # rest" using parsed_object_text [OF J] by auto
  have nlt: "n < length lead + length J"
  proof (rule ccontr)
    assume "\<not> n < length lead + length J"
    then have "drop n s = drop (n - length lead - length J) trail"
      unfolding parts [symmetric] by simp
    then have "set (drop n s) \<subseteq> set trail" by (simp add: set_drop_subset)
    then have "list_all is_js_ws (drop n s)" using trail unfolding list_all_iff by blast
    then show False using cut second by simp
  qed
  show ?thesis
  proof (cases "n \<le> length lead")
    case True
    then have "take n s = take n lead" unfolding parts [symmetric] by simp
    moreover have "list_all is_js_ws (take n lead)"
      using lead unfolding list_all_iff by (meson in_set_takeD)
    ultimately have "trim (take n s) = []" by (simp add: trim_blank)
    then show ?thesis unfolding piece by (simp add: JSON_parse_empty done_literal)
  next
    case gt: False
    define j where "j = n - length lead - 1"
    have nj: "n = length lead + Suc j" using gt by (simp add: j_def)
    have jl: "j < length rest" using nlt nj Jb by simp
    have "take n s = lead @ 0x7B # take j rest"
      unfolding parts [symmetric] nj Jb using jl by simp
    then have tr: "trim (take n s) = trim (0x7B # take j rest)" by (simp add: trim_leading [OF lead])
    have brace: "\<not> is_js_ws 0x7B" by (simp add: is_js_ws_def)
    obtain p w where tp: "trim (0x7B # take j rest) = 0x7B # p"
      and tw: "0x7B # take j rest = (0x7B # p) @ w"
      using trim_keeps_head [OF brace] by blast
    have "0x7B # rest = (0x7B # take j rest) @ drop j rest" by simp
    then have pre: "0x7B # rest = (0x7B # p) @ (w @ drop j rest)" using tw by simp
    have y: "w @ drop j rest \<noteq> []" using jl by simp
    have "\<not> is_json_ws (last (0x7B # rest))" using lastJ json_ws_is_js_ws unfolding Jb by blast
    then have "JSON_parse (0x7B # p) = None"
      using J [unfolded Jb] pre y
      by (intro JSON_prefix_free [where s = rest and y = "w @ drop j rest"])
    then show ?thesis unfolding piece tr tp by (simp add: done_literal)
  qed
qed

lemma DONE_no_json: "JSON_parse (js ''[DONE]'') = None"
  by code_simp

lemma unsplit_line_frame:
  assumes "starts_with line (js ''data: '')"
    and "JSON_parse (trim (drop 6 line)) = Some parsed"
    and "delta_content parsed = Some (Some c)"
    and "truthy rt (Some c)"
  shows "process_line rt buf line = buf @ content_frame rt c"
proof -
  have "trim (drop 6 line) \<noteq> js ''[DONE]''" using assms(2) DONE_no_json by auto
  moreover have "trim (drop 6 line) \<noteq> []" using assms(2) JSON_parse_empty by auto
  ultimately show ?thesis using assms by (simp add: process_line_def Let_def del: truthy.simps)
qed

lemma on_data_plain:
  assumes "0x0A \<notin> set piece"
  shows "on_data rt buf piece = process_line rt buf piece"
  unfolding on_data_def using assms by (simp add: split_nl_plain)

lemma split_line_lost:
  assumes pre: "pre = [] \<or> last pre = 0x0A"
    and nl: "0x0A \<notin> set line"
    and sw: "starts_with line (js ''data: '')"
    and whole: "JSON_parse (trim (drop 6 line)) = Some parsed"
    and dc: "delta_content parsed = Some (Some c)"
    and k: "0 < k"
    and cut: "\<not> list_all is_js_ws (drop k line)"
  shows "process_line rt b (take k line) = b"
    and "process_line rt b (drop k line) = b"
    and "foldl (on_data rt) buf [pre @ take k line, drop k line @ 0x0A # post]
           = foldl (on_data rt) buf [pre, post]"
    and "foldl (on_data rt) buf [pre @ take k line, drop k line] = foldl (on_data rt) buf [pre]"
proof -
  obtain props where "parsed = JObj props" using delta_content_object [OF dc] by blast
  then have obj: "JSON_parse (trim (drop 6 line)) = Some (JObj props)" using whole by simp
  note fp = first_piece_dropped [OF obj cut]
  show first: "process_line rt b (take k line) = b" for b
    by (rule process_line_dropped) (use fp in simp_all)
  show second: "process_line rt b (drop k line) = b" for b
    by (rule second_piece_dropped [OF sw whole k])
  have a: "0x0A \<notin> set (take k line)" using nl by (meson in_set_takeD)
  have b: "0x0A \<notin> set (drop k line)" using nl by (meson in_set_dropD)
  show "foldl (on_data rt) buf [pre @ take k line, drop k line @ 0x0A # post]
           = foldl (on_data rt) buf [pre, post]"
    unfolding split_pieces [OF pre a b] by (simp add: first second)
  show "foldl (on_data rt) buf [pre @ take k line, drop k line] = foldl (on_data rt) buf [pre]"
    by (simp add: on_data_pieces [OF pre a] on_data_plain [OF b] first second)
qed

lemma hi_line_shape:
  "0x0A \<notin> set (hi_line @ [0x0D])"
  "\<not> is_js_ws (last hi_line)"
  by code_simp+

lemma hi_cr_cut:
  assumes "j < length hi_line"
  shows "\<not> list_all is_js_ws (drop j (hi_line @ [0x0D]))"
proof -
  have ne: "drop j hi_line \<noteq> []" using assms by simp
  then have "last (drop j hi_line) \<in> set (drop j hi_line)" by (rule last_in_set)
  moreover have "last (drop j hi_line) = last hi_line" using assms by simp
  ultimately have "last hi_line \<in> set (drop j (hi_line @ [0x0D]))" using assms by simp
  then show ?thesis using hi_line_shape(2) unfolding list_all_iff by blast
qed

lemma hi_cr_payload:
  "JSON_parse (trim (drop 6 (hi_line @ [0x0D]))) =
     Some (JObj [(js ''choices'', JArr [JObj [(js ''delta'', JObj [(js ''content'', JStr (js ''hi''))])]])])"
  by (simp only: hi_cr_parts(2) hi_line_parts(4))

lemma nested_line_parts:
  "starts_with nested_line (js ''data: '')"
  "0x0A \<notin> set nested_line"
  \<open>JSON_parse (trim (drop 6 nested_line)) =
     Some (JObj [(js ''choices'', JArr [JObj [(js ''delta'', JObj [(js ''content'', JStr (js ''data: 1''))])]])])\<close>
  "delta_content (JObj [(js ''choices'', JArr [JObj [(js ''delta'', JObj [(js ''content'', JStr (js ''data: 1''))])]])])
     = Some (Some (JStr (js ''data: 1'')))"
  "\<not> list_all is_js_ws (drop 39 nested_line)"
  "starts_with (drop 39 nested_line) (js ''data: '')"
  by code_simp+

lemma nested_truthy: "truthy rt (Some (JStr (js ''data: 1'')))"
  by (simp add: js_def)

text \<open>
  C2, amended.  Let an event line begin with \<open>data: \<close> and carry delta content, and let it
  be split into two pieces across two consecutive chunks, the first piece not empty and
  the cut not inside the white space at the end of the line (the second piece has a
  character that is not white space).  The reframer handles the two pieces as two lines
  of their own and never joins them; neither piece yields a frame, also when the second
  piece begins with \<open>data: \<close> itself; so the buffer is that of the stream without the
  line, whether the line ends with a line feed or with the stream, and the content of
  the line, which the unsplit line would have put into the buffer, is lost.  On a stream
  with CRLF line ends this is so for every cut of the content line of the documented
  example but the one before its carriage return.
\<close>

theorem split_line_not_reassembled:
  assumes "pre = [] \<or> last pre = 0x0A"
    and "0x0A \<notin> set line"
    and "starts_with line (js ''data: '')"
    and "JSON_parse (trim (drop 6 line)) = Some parsed"
    and "delta_content parsed = Some (Some c)"
    and "0 < k"
    and "\<not> list_all is_js_ws (drop k line)"
  shows "(truthy rt (Some c) \<longrightarrow> process_line rt buf line = buf @ content_frame rt c)
         \<and> foldl (on_data rt) buf [pre @ take k line, drop k line @ 0x0A # post]
             = on_data rt (process_line rt (process_line rt (on_data rt buf pre) (take k line))
                             (drop k line)) post
         \<and> process_line rt buf (take k line) = buf
         \<and> process_line rt buf (drop k line) = buf
         \<and> foldl (on_data rt) buf [pre @ take k line, drop k line @ 0x0A # post]
             = foldl (on_data rt) buf [pre, post]
         \<and> foldl (on_data rt) buf [pre @ take k line, drop k line]
             = foldl (on_data rt) buf [pre]
         \<and> (\<forall>j. 0 < j \<and> j < length hi_line
              \<longrightarrow> foldl (on_data rt) buf
                      [pre @ take j (hi_line @ [0x0D]), drop j (hi_line @ [0x0D]) @ 0x0A # post]
                    = foldl (on_data rt) buf [pre, post])"
proof (intro conjI impI allI)
  assume "truthy rt (Some c)"
  with assms(3,4,5) show "process_line rt buf line = buf @ content_frame rt c"
    by (rule unsplit_line_frame)
next
  have a: "0x0A \<notin> set (take k line)" using assms(2) by (meson in_set_takeD)
  have b: "0x0A \<notin> set (drop k line)" using assms(2) by (meson in_set_dropD)
  show "foldl (on_data rt) buf [pre @ take k line, drop k line @ 0x0A # post]
           = on_data rt (process_line rt (process_line rt (on_data rt buf pre) (take k line))
                           (drop k line)) post"
    by (rule split_pieces [OF assms(1) a b])
next
  show "process_line rt buf (take k line) = buf"
    by (rule split_line_lost(1) [OF assms])
next
  show "process_line rt buf (drop k line) = buf"
    by (rule split_line_lost(2) [OF assms])
next
  show "foldl (on_data rt) buf [pre @ take k line, drop k line @ 0x0A # post]
          = foldl (on_data rt) buf [pre, post]"
    by (rule split_line_lost(3) [OF assms])
next
  show "foldl (on_data rt) buf [pre @ take k line, drop k line] = foldl (on_data rt) buf [pre]"
    by (rule split_line_lost(4) [OF assms])
next
  fix j
  assume j: "0 < j \<and> j < length hi_line"
  then have j0: "0 < j" and jl: "j < length hi_line" by simp_all
  show "foldl (on_data rt) buf
          [pre @ take j (hi_line @ [0x0D]), drop j (hi_line @ [0x0D]) @ 0x0A # post]
        = foldl (on_data rt) buf [pre, post]"
    by (rule split_line_lost(3) [OF assms(1) hi_line_shape(1) hi_cr_parts(1) hi_cr_payload
          hi_line_parts(5) j0 hi_cr_cut [OF jl]])
qed

theorem split_line_not_reassembled_witness:
  "starts_with nested_line (js ''data: '')
   \<and> 0x0A \<notin> set nested_line
   \<and> JSON_parse (trim (drop 6 nested_line)) =
       Some (JObj [(js ''choices'', JArr [JObj [(js ''delta'', JObj [(js ''content'', JStr (js ''data: 1''))])]])])
   \<and> delta_content (JObj [(js ''choices'', JArr [JObj [(js ''delta'', JObj [(js ''content'', JStr (js ''data: 1''))])]])])
       = Some (Some (JStr (js ''data: 1'')))
   \<and> (0::nat) < 39
   \<and> \<not> list_all is_js_ws (drop 39 nested_line)
   \<and> starts_with (drop 39 nested_line) (js ''data: '')
   \<and> truthy sample_runtime (Some (JStr (js ''data: 1'')))
   \<and> process_line sample_runtime [] nested_line
       = content_frame sample_runtime (JStr (js ''data: 1''))
   \<and> reframe sample_runtime [take 39 nested_line, drop 39 nested_line @ 0x0A # done_line @ [0x0A]]
       = done_frame"
proof -
  have k: "(0::nat) < 39" by simp
  have sp: "concat (map split_nl [[], done_line @ [0x0A]]) = [[], done_line, []]"
    by code_simp
  have d: "reframe sample_runtime [[], done_line @ [0x0A]] = done_frame"
    unfolding reframe_def foldl_on_data sp
    by (simp add: process_line_empty process_done_line)
  have e: "([] :: jsstring) = [] \<or> last ([] :: jsstring) = 0x0A" by simp
  note th = split_line_not_reassembled [OF e nested_line_parts(2) nested_line_parts(1)
      nested_line_parts(3) nested_line_parts(4) k nested_line_parts(5),
      of sample_runtime "[]" "done_line @ [0x0A]"]
  have whole: "process_line sample_runtime [] nested_line
                 = content_frame sample_runtime (JStr (js ''data: 1''))"
    using th nested_truthy [of sample_runtime] by simp
  have "foldl (on_data sample_runtime) []
          [[] @ take 39 nested_line, drop 39 nested_line @ 0x0A # done_line @ [0x0A]]
          = foldl (on_data sample_runtime) [] [[], done_line @ [0x0A]]"
    using th by blast
  then have "reframe sample_runtime [take 39 nested_line, drop 39 nested_line @ 0x0A # done_line @ [0x0A]]
          = reframe sample_runtime [[], done_line @ [0x0A]]"
    unfolding reframe_def by simp
  then have r: "reframe sample_runtime [take 39 nested_line, drop 39 nested_line @ 0x0A # done_line @ [0x0A]]
          = done_frame" using d by simp
  show ?thesis
    using nested_line_parts nested_truthy [of sample_runtime] k whole r by blast
qed

section \<open>Properties of the handler\<close>

lemma build_user_prompt_strings:
  assumes "selectedText = None \<or> (\<exists>sel. selectedText = Some (JStr sel))"
  shows "\<exists>userPrompt. build_user_prompt rt prompt selectedText (JStr md) = Inr userPrompt"
proof (cases selectedText)
  case None
  then show ?thesis by (simp add: build_user_prompt_def)
next
  case (Some v)
  with assms obtain sel where v: "v = JStr sel" by auto
  show ?thesis unfolding Some v by (simp add: build_user_prompt_def call_trim_def)
qed

lemma process_markdown_string:
  "\<exists>md. process_markdown rt (Some (JStr markdown)) = Inr (JStr md)"
  by (simp add: process_markdown_def)

lemma trim_nonempty: "trim s \<noteq> [] \<Longrightarrow> s \<noteq> []"
  by (auto simp: trim_def)

lemma handler_try_valid:
  assumes parse: "JSON_parse (body_or_default ev) = Some parsedBody"
    and p: "get_property parsedBody (js ''prompt'') = Some (JStr prompt)"
    and np: "trim prompt \<noteq> []"
    and m: "get_property parsedBody (js ''markdown'') = Some (JStr markdown)"
    and s: "get_property parsedBody (js ''selectedText'') = None
            \<or> (\<exists>sel. get_property parsedBody (js ''selectedText'') = Some (JStr sel))"
  shows "\<exists>userPrompt. handler_try rt environment ev =
           (case OPENAI_API_KEY environment of
              None \<Rightarrow> Inr (Respond (configuration_error_response rt))
            | Some key \<Rightarrow>
                if key = [] then Inr (Respond (configuration_error_response rt))
                else Inr (Proceed (outbound_request key (stringify rt (payload_object userPrompt)))))"
proof -
  have nn: "parsedBody \<noteq> JNull" using p by auto
  have tr: "truthy rt (Some (JStr prompt))" using trim_nonempty [OF np] by simp
  obtain md where md: "process_markdown rt (Some (JStr markdown)) = Inr (JStr md)"
    using process_markdown_string by blast
  obtain userPrompt where up:
    "build_user_prompt rt prompt (get_property parsedBody (js ''selectedText'')) (JStr md)
       = Inr userPrompt"
    using build_user_prompt_strings [OF s] by blast
  have "handler_try rt environment ev =
           (case OPENAI_API_KEY environment of
              None \<Rightarrow> Inr (Respond (configuration_error_response rt))
            | Some key \<Rightarrow>
                if key = [] then Inr (Respond (configuration_error_response rt))
                else Inr (Proceed (outbound_request key (stringify rt (payload_object userPrompt)))))"
    unfolding handler_try_def parse
    by (simp add: nn p m tr np md up call_trim_def Let_def del: truthy.simps)
  then show ?thesis by blast
qed

lemma sample_body_fields:
  "JSON_parse (body_or_default (post_event sample_body))
     = Some (JObj [(js ''prompt'', JStr (js ''Fix typos'')), (js ''markdown'', JStr (js ''Helo world''))])"
  "get_property (JObj [(js ''prompt'', JStr (js ''Fix typos'')), (js ''markdown'', JStr (js ''Helo world''))])
     (js ''prompt'') = Some (JStr (js ''Fix typos''))"
  "trim (js ''Fix typos'') \<noteq> []"
  "get_property (JObj [(js ''prompt'', JStr (js ''Fix typos'')), (js ''markdown'', JStr (js ''Helo world''))])
     (js ''markdown'') = Some (JStr (js ''Helo world''))"
  "get_property (JObj [(js ''prompt'', JStr (js ''Fix typos'')), (js ''markdown'', JStr (js ''Helo world''))])
     (js ''selectedText'') = None"
  "httpMethod (post_event sample_body) \<noteq> Some (js ''OPTIONS'')"
  "OPENAI_API_KEY sample_environment = Some (js ''sk-test'')"
  "js ''sk-test'' \<noteq> []"
  by code_simp+

lemma sample_request_sent:
  "sent (handler rt sample_environment (post_event sample_body) up) \<noteq> []"
proof -
  obtain userPrompt where
    "handler_try rt sample_environment (post_event sample_body) =
       Inr (Proceed (outbound_request (js ''sk-test'') (stringify rt (payload_object userPrompt))))"
    using handler_try_valid [OF sample_body_fields(1,2,3,4), of rt sample_environment]
      sample_body_fields(5,7,8) by auto
  then show ?thesis using sample_body_fields(6) by (simp add: handler_def)
qed


lemma hi_done_buffer_frames: "hi_frame @ done_frame = hi_done_buffer"
  by code_simp

lemma exchange_success:
  "exchange_result rt (success_stream chunks) = Some (success_response (reframe rt chunks))"
  by (simp add: exchange_result_def success_stream_def settled_def streaming_data reframe_def)

lemma sent_nonempty:
  assumes "sent (handler rt environment ev up) \<noteq> []"
  shows "reply (handler rt environment ev up) = exchange_result rt up"
  using assms by (auto simp: handler_def split: if_splits sum.splits early.splits)


text \<open>
  C1.  Whenever the non-empty lines of the chunks of a 200 response are the content line
  for \<open>hi\<close> followed by the \<open>[DONE]\<close> line, the reframer's buffer is exactly the
  content frame followed by the terminal frame; the promise of the exchange resolves, on
  the end of the stream, to status 200 with that buffer as body, and so does every
  invocation of the handler that issued the upstream request.
\<close>

theorem reframe_hi_done:
  assumes "filter (\<lambda>l. l \<noteq> []) (concat (map split_nl chunks)) = [hi_line, done_line]"
  shows "reframe rt chunks = hi_done_buffer
         \<and> exchange_result rt (success_stream chunks)
             = Some \<lparr>statusCode = 200,
                     headers = [(js ''Content-Type'', js ''text/event-stream''),
                                (js ''Access-Control-Allow-Origin'', js ''*''),
                                (js ''Cache-Control'', js ''no-cache'')],
                     body = hi_done_buffer\<rparr>
         \<and> (sent (handler rt environment ev (success_stream chunks)) \<noteq> []
              \<longrightarrow> reply (handler rt environment ev (success_stream chunks))
                    = Some (success_response hi_done_buffer)
                  \<and> statusCode (success_response hi_done_buffer) = 200
                  \<and> body (success_response hi_done_buffer) = hi_done_buffer)"
proof -
  have "reframe rt chunks
          = foldl (process_line rt) [] (filter (\<lambda>l. l \<noteq> []) (concat (map split_nl chunks)))"
    unfolding reframe_def foldl_on_data by (rule foldl_skip_empty)
  also have "\<dots> = hi_frame @ done_frame"
    unfolding assms by (simp add: process_hi_line process_done_line)
  finally have r: "reframe rt chunks = hi_done_buffer" by (simp only: hi_done_buffer_frames)
  have e: "exchange_result rt (success_stream chunks) = Some (success_response hi_done_buffer)"
    by (simp only: exchange_success r)
  show ?thesis using r e sent_nonempty [of rt environment ev "success_stream chunks"]
    by (simp add: success_response_def)
qed

theorem reframe_hi_done_witness:
  "filter (\<lambda>l. l \<noteq> []) (concat (map split_nl [hi_done_chunk])) = [hi_line, done_line]
   \<and> reframe sample_runtime [hi_done_chunk] = hi_done_buffer
   \<and> sent (handler sample_runtime sample_environment (post_event sample_body)
             (success_stream [hi_done_chunk])) \<noteq> []
   \<and> reply (handler sample_runtime sample_environment (post_event sample_body)
             (success_stream [hi_done_chunk])) = Some (success_response hi_done_buffer)"
proof -
  have h: "filter (\<lambda>l. l \<noteq> []) (concat (map split_nl [hi_done_chunk])) = [hi_line, done_line]"
    by code_simp
  show ?thesis
    using h sample_request_sent [of sample_runtime "success_stream [hi_done_chunk]"]
      reframe_hi_done [OF h, of sample_runtime sample_environment "post_event sample_body"]
    by blast
qed


subsection \<open>The cross-origin header\<close>

lemma json_headers_origin: "map_of json_headers allow_origin = Some (js ''*'')"
  by code_simp

lemma error_response_origin: "allows_any_origin (error_response rt code fs)"
  by (simp add: allows_any_origin_def error_response_def json_headers_origin)

lemma preflight_origin: "allows_any_origin preflight_response"
  unfolding allows_any_origin_def by code_simp

lemma success_origin: "allows_any_origin (success_response b)"
proof -
  have "map_of [(js ''Content-Type'', js ''text/event-stream''),
                (js ''Access-Control-Allow-Origin'', js ''*''),
                (js ''Cache-Control'', js ''no-cache'')] allow_origin = Some (js ''*'')"
    by code_simp
  then show ?thesis by (simp add: success_response_def allows_any_origin_def)
qed

lemma named_response_origins:
  "allows_any_origin (invalid_json_response rt)"
  "allows_any_origin (prompt_required_response rt)"
  "allows_any_origin (configuration_error_response rt)"
  "allows_any_origin (upstream_status_response rt code errorBody)"
  "allows_any_origin (stream_error_response rt err)"
  "allows_any_origin (request_failed_response rt err)"
  "allows_any_origin (write_failed_response rt err)"
  "allows_any_origin (internal_error_response rt err)"
  unfolding invalid_json_response_def prompt_required_response_def
    configuration_error_response_def upstream_status_response_def stream_error_response_def
    request_failed_response_def write_failed_response_def internal_error_response_def
  by (rule error_response_origin)+

lemma on_event_origin:
  assumes "settled_open st"
  shows "settled_open (on_event rt st e)"
proof (cases st)
  case Awaiting
  then show ?thesis
    by (cases e) (simp_all add: settled_open_def named_response_origins)
next
  case (Draining code errorBody)
  then show ?thesis
    by (cases e) (simp_all add: settled_open_def named_response_origins)
next
  case (Streaming streamResponse chunkCount)
  then show ?thesis
    by (cases e) (simp_all add: settled_open_def named_response_origins success_origin)
next
  case (Settled r)
  then show ?thesis using assms by simp
next
  case Crashed
  then show ?thesis by (simp add: settled_open_def)
qed

lemma foldl_on_event_origin:
  "settled_open st \<Longrightarrow> settled_open (foldl (on_event rt) st es)"
  by (induction es arbitrary: st) (simp_all add: on_event_origin)

lemma exchange_origin:
  assumes "exchange_result rt up = Some r"
  shows "allows_any_origin r"
proof (cases "write_error up")
  case None
  then have "foldl (on_event rt) Awaiting (events up) = Settled r"
    using assms by (simp add: exchange_result_def settled_def split: exchange.splits)
  moreover have "settled_open (foldl (on_event rt) Awaiting (events up))"
    by (rule foldl_on_event_origin) (simp add: settled_open_def)
  ultimately show ?thesis by (simp add: settled_open_def)
next
  case (Some e)
  then have "r = write_failed_response rt e" using assms by (simp add: exchange_result_def)
  then show ?thesis by (simp add: named_response_origins)
qed


lemma handler_try_respond:
  assumes "handler_try rt environment ev = Inr (Respond r)"
  shows "r = invalid_json_response rt \<or> r = prompt_required_response rt
         \<or> r = configuration_error_response rt"
proof (cases "JSON_parse (body_or_default ev)")
  case None
  then show ?thesis using assms by (simp add: handler_try_def)
next
  case (Some parsedBody)
  let ?prompt = "get_property parsedBody (js ''prompt'')"
  let ?markdown = "get_property parsedBody (js ''markdown'')"
  let ?selectedText = "get_property parsedBody (js ''selectedText'')"
  let ?p = "case ?prompt of Some (JStr p) \<Rightarrow> p | _ \<Rightarrow> []"
  show ?thesis
  proof (cases "parsedBody = JNull")
    case True
    then show ?thesis using assms Some by (simp add: handler_try_def)
  next
    case notnull: False
    show ?thesis
    proof (cases "truthy rt ?prompt")
      case False
      then show ?thesis using assms Some notnull by (simp add: handler_try_def Let_def)
    next
      case tr: True
      show ?thesis
      proof (cases "call_trim rt Prompt_trim ?prompt")
        case (Inl e)
        then show ?thesis using assms Some notnull tr by (simp add: handler_try_def Let_def)
      next
        case trimmed: (Inr t)
        show ?thesis
        proof (cases "t = []")
          case True
          then show ?thesis
            using assms Some notnull tr trimmed by (simp add: handler_try_def Let_def)
        next
          case nonblank: False
          show ?thesis
          proof (cases "process_markdown rt ?markdown")
            case (Inl e)
            then show ?thesis
              using assms Some notnull tr trimmed nonblank by (simp add: handler_try_def Let_def)
          next
            case md: (Inr processedMarkdown)
            show ?thesis
            proof (cases "build_user_prompt rt ?p ?selectedText processedMarkdown")
              case (Inl e)
              then show ?thesis
                using assms Some notnull tr trimmed nonblank md
                by (simp add: handler_try_def Let_def)
            next
              case up: (Inr userPrompt)
              show ?thesis
                using assms Some notnull tr trimmed nonblank md up
                by (simp add: handler_try_def Let_def split: option.splits if_splits)
            qed
          qed
        qed
      qed
    qed
  qed
qed

text \<open>
  C8.  Whatever the request, the environment and the course of the upstream exchange,
  a response that the handler returns carries \<open>Access-Control-Allow-Origin: *\<close>: the
  preflight answer, the two validation errors, the configuration error, the catch-all,
  and every way the exchange can settle (upstream status, stream error, transport error,
  write error, success).
\<close>

theorem every_response_allows_any_origin:
  assumes "reply (handler rt environment ev up) = Some r"
  shows "map_of (headers r) (js ''Access-Control-Allow-Origin'') = Some (js ''*'')"
proof -
  have "allows_any_origin r"
  proof (cases "httpMethod ev = Some (js ''OPTIONS'')")
    case True
    then have "r = preflight_response" using assms by (simp add: handler_def)
    then show ?thesis by (simp add: preflight_origin)
  next
    case False
    show ?thesis
    proof (cases "handler_try rt environment ev")
      case (Inl e)
      then have "r = internal_error_response rt e" using assms False by (simp add: handler_def)
      then show ?thesis by (simp add: named_response_origins)
    next
      case (Inr x)
      show ?thesis
      proof (cases x)
        case (Respond r')
        then have "r' = r" using assms False Inr by (simp add: handler_def)
        then show ?thesis using handler_try_respond [of rt environment ev r] Inr Respond
          by (auto simp: named_response_origins)
      next
        case (Proceed req)
        then have "exchange_result rt up = Some r" using assms False Inr by (simp add: handler_def)
        then show ?thesis by (rule exchange_origin)
      qed
    qed
  qed
  then show ?thesis by (simp only: allows_any_origin_def allow_origin_def)
qed

lemma rejected_exchange:
  "exchange_result rt rejected_upstream = Some (upstream_status_response rt 401 (js ''denied''))"
  by (simp add: exchange_result_def rejected_upstream_def settled_def)

theorem every_response_allows_any_origin_witness:
  "reply (handler sample_runtime sample_environment (post_event sample_body) rejected_upstream)
     = Some (upstream_status_response sample_runtime 401 (js ''denied''))
   \<and> map_of (headers (upstream_status_response sample_runtime 401 (js ''denied'')))
         (js ''Access-Control-Allow-Origin'') = Some (js ''*'')"
proof -
  have r: "reply (handler sample_runtime sample_environment (post_event sample_body) rejected_upstream)
             = Some (upstream_status_response sample_runtime 401 (js ''denied''))"
    using sent_nonempty [OF sample_request_sent, of sample_runtime rejected_upstream]
    by (simp only: rejected_exchange)
  show ?thesis using r every_response_allows_any_origin [OF r] by simp
qed


subsection \<open>Validation, configuration and the catch-all\<close>

lemma stringify_string: "stringify rt (JStr s) = quote s"
  by simp

lemma prompt_required_body:
  \<open>body (prompt_required_response rt) = js ''{"error":"Prompt is required"}''\<close>
proof -
  have "body (prompt_required_response rt)
          = js ''{'' @ quote (js ''error'') @ js '':'' @ quote (js ''Prompt is required'') @ js ''}''"
    by (simp add: prompt_required_response_def error_response_def object_literal_def
        List.map_filter_def)
  also have \<open>\<dots> = js ''{"error":"Prompt is required"}''\<close> by code_simp
  finally show ?thesis .
qed

lemma invalid_json_body:
  \<open>body (invalid_json_response rt) = js ''{"error":"Invalid JSON in request body"}''\<close>
proof -
  have "body (invalid_json_response rt)
          = js ''{'' @ quote (js ''error'') @ js '':'' @ quote (js ''Invalid JSON in request body'')
            @ js ''}''"
    by (simp add: invalid_json_response_def error_response_def object_literal_def
        List.map_filter_def)
  also have \<open>\<dots> = js ''{"error":"Invalid JSON in request body"}''\<close> by code_simp
  finally show ?thesis .
qed

lemma configuration_error_body:
  \<open>body (configuration_error_response rt)
     = js ''{"error":"Server configuration error","details":"API key not configured"}''\<close>
proof -
  have "body (configuration_error_response rt)
          = js ''{'' @ quote (js ''error'') @ js '':'' @ quote (js ''Server configuration error'')
            @ js '','' @ quote (js ''details'') @ js '':'' @ quote (js ''API key not configured'')
            @ js ''}''"
    by (simp add: configuration_error_response_def error_response_def object_literal_def
        List.map_filter_def)
  also have \<open>\<dots> = js ''{"error":"Server configuration error","details":"API key not configured"}''\<close>
    by code_simp
  finally show ?thesis .
qed

lemma internal_error_body:
  "body (internal_error_response rt e)
     = stringify rt (JObj [(js ''error'', JStr (js ''Internal server error'')),
                           (js ''details'', JStr (err_message e)),
                           (js ''errorName'', JStr (err_name e)),
                           (js ''stack'', JStr (err_stack e))])"
  by (simp add: internal_error_response_def error_response_def object_literal_def
      List.map_filter_def)

lemma status_codes:
  "statusCode (prompt_required_response rt) = 400"
  "statusCode (invalid_json_response rt) = 400"
  "statusCode (configuration_error_response rt) = 500"
  "statusCode (internal_error_response rt e) = 500"
  "statusCode preflight_response = 200"
  by (simp_all add: prompt_required_response_def invalid_json_response_def
      configuration_error_response_def internal_error_response_def error_response_def
      preflight_response_def)

lemma handler_try_blank_prompt:
  assumes "JSON_parse (body_or_default ev) = Some parsedBody"
    and "get_property parsedBody (js ''prompt'') = Some (JStr prompt)"
    and "trim prompt = []"
  shows "handler_try rt environment ev = Inr (Respond (prompt_required_response rt))"
proof -
  have nn: "parsedBody \<noteq> JNull" using assms(2) by auto
  show ?thesis
    unfolding handler_try_def assms(1)
    by (simp add: nn assms(2,3) call_trim_def Let_def)
qed

lemma handler_try_no_prompt:
  assumes "JSON_parse (body_or_default ev) = Some parsedBody"
    and "parsedBody \<noteq> JNull"
    and "get_property parsedBody (js ''prompt'') = None"
  shows "handler_try rt environment ev = Inr (Respond (prompt_required_response rt))"
  unfolding handler_try_def assms(1) by (simp add: assms(2,3) Let_def)

lemma handler_try_no_markdown:
  assumes "JSON_parse (body_or_default ev) = Some parsedBody"
    and "get_property parsedBody (js ''prompt'') = Some (JStr prompt)"
    and "trim prompt \<noteq> []"
    and "get_property parsedBody (js ''markdown'') = None"
  shows "handler_try rt environment ev = Inl (type_error rt Markdown_length None)"
proof -
  have nn: "parsedBody \<noteq> JNull" using assms(2) by auto
  have tr: "truthy rt (Some (JStr prompt))" using trim_nonempty [OF assms(3)] by simp
  show ?thesis
    unfolding handler_try_def assms(1)
    by (simp add: nn assms(2,3,4) tr call_trim_def process_markdown_def Let_def del: truthy.simps)
qed

lemma handler_not_options:
  assumes "httpMethod ev \<noteq> Some (js ''OPTIONS'')"
  shows "handler_try rt environment ev = Inl e
           \<Longrightarrow> handler rt environment ev up = \<lparr>sent = [], reply = Some (internal_error_response rt e)\<rparr>"
    and "handler_try rt environment ev = Inr (Respond r)
           \<Longrightarrow> handler rt environment ev up = \<lparr>sent = [], reply = Some r\<rparr>"
  using assms by (simp_all add: handler_def)

lemma handler_options:
  "handler rt environment (options_event b) up = \<lparr>sent = [], reply = Some preflight_response\<rparr>"
  by (simp add: handler_def options_event_def)

lemma empty_object: "JSON_parse (js ''{}'') = Some (JObj [])"
  by code_simp


lemma sample_event_facts:
  "httpMethod (post_event b) \<noteq> Some (js ''OPTIONS'')"
  "httpMethod bodyless_post \<noteq> Some (js ''OPTIONS'')"
  "body_of bodyless_post = None"
  "OPENAI_API_KEY no_credential = None"
  by (simp_all add: post_event_def bodyless_post_def no_credential_def js_def u_def)

lemma prompt_only_fields:
  "JSON_parse (body_or_default (post_event prompt_only_body))
     = Some (JObj [(js ''prompt'', JStr (js ''Fix typos''))])"
  "JSON_parse (body_or_default (options_event (Some prompt_only_body)))
     = Some (JObj [(js ''prompt'', JStr (js ''Fix typos''))])"
  "get_property (JObj [(js ''prompt'', JStr (js ''Fix typos''))]) (js ''prompt'')
     = Some (JStr (js ''Fix typos''))"
  "get_property (JObj [(js ''prompt'', JStr (js ''Fix typos''))]) (js ''markdown'') = None"
  by code_simp+

lemma blank_prompt_fields:
  "JSON_parse (body_or_default (post_event blank_prompt_body))
     = Some (JObj [(js ''prompt'', JStr (js ''   ''))])"
  "JSON_parse (body_or_default (options_event (Some blank_prompt_body)))
     = Some (JObj [(js ''prompt'', JStr (js ''   ''))])"
  "get_property (JObj [(js ''prompt'', JStr (js ''   ''))]) (js ''prompt'')
     = Some (JStr (js ''   ''))"
  "trim (js ''   '') = []"
  by code_simp+

lemma sample_internal_error_body:
  \<open>body (internal_error_response sample_runtime (type_error sample_runtime Markdown_length None))
     = js ''{"error":"Internal server error","details":"Cannot read properties of undefined","errorName":"TypeError","stack":"TypeError: Cannot read properties of undefined"}''\<close>
  by code_simp

text \<open>
  C5, as stated, at a POST request with body \<open>{"prompt":"Fix typos"}\<close> and no credential:
  the body is valid JSON and the prompt is not blank, yet the missing \<open>markdown\<close> throws
  before the credential is looked at, and the answer is the catch-all's
  \<open>Internal server error\<close>.
\<close>

theorem missing_markdown_hides_configuration_error:
  \<open>JSON_parse (body_or_default (post_event prompt_only_body))
     = Some (JObj [(js ''prompt'', JStr (js ''Fix typos''))])
   \<and> trim (js ''Fix typos'') \<noteq> []
   \<and> OPENAI_API_KEY no_credential = None
   \<and> reply (handler sample_runtime no_credential (post_event prompt_only_body) idle_upstream)
       = Some (internal_error_response sample_runtime
                 (type_error sample_runtime Markdown_length None))
   \<and> body (internal_error_response sample_runtime (type_error sample_runtime Markdown_length None))
       = js ''{"error":"Internal server error","details":"Cannot read properties of undefined","errorName":"TypeError","stack":"TypeError: Cannot read properties of undefined"}''\<close>
proof -
  have "handler_try sample_runtime no_credential (post_event prompt_only_body)
          = Inl (type_error sample_runtime Markdown_length None)"
    by (rule handler_try_no_markdown
        [OF prompt_only_fields(1) prompt_only_fields(3) sample_body_fields(3) prompt_only_fields(4)])
  then have "handler sample_runtime no_credential (post_event prompt_only_body) idle_upstream
          = \<lparr>sent = [], reply = Some (internal_error_response sample_runtime
                 (type_error sample_runtime Markdown_length None))\<rparr>"
    by (rule handler_not_options(1) [OF sample_event_facts(1)])
  then show ?thesis
    using prompt_only_fields(1) sample_body_fields(3) sample_event_facts(4)
      sample_internal_error_body by simp
qed

text \<open>
  C5, amended.  For every request other than a preflight whose body is valid JSON with a
  string \<open>prompt\<close> that is not blank, a string \<open>markdown\<close>, and a \<open>selectedText\<close>
  that is absent or a string: when the credential is absent (or empty), the handler
  answers 500 with \<open>Server configuration error\<close> and issues no outbound request.
\<close>

theorem missing_credential_short_circuits:
  assumes "httpMethod ev \<noteq> Some (js ''OPTIONS'')"
    and "JSON_parse (body_or_default ev) = Some parsedBody"
    and "get_property parsedBody (js ''prompt'') = Some (JStr prompt)"
    and "trim prompt \<noteq> []"
    and "get_property parsedBody (js ''markdown'') = Some (JStr markdown)"
    and "get_property parsedBody (js ''selectedText'') = None
         \<or> (\<exists>sel. get_property parsedBody (js ''selectedText'') = Some (JStr sel))"
    and "OPENAI_API_KEY environment = None \<or> OPENAI_API_KEY environment = Some []"
  shows \<open>handler rt environment ev up
           = \<lparr>sent = [], reply = Some (configuration_error_response rt)\<rparr>
         \<and> statusCode (configuration_error_response rt) = 500
         \<and> body (configuration_error_response rt)
             = js ''{"error":"Server configuration error","details":"API key not configured"}''\<close>
proof -
  obtain userPrompt where
    "handler_try rt environment ev =
       (case OPENAI_API_KEY environment of
          None \<Rightarrow> Inr (Respond (configuration_error_response rt))
        | Some key \<Rightarrow>
            if key = [] then Inr (Respond (configuration_error_response rt))
            else Inr (Proceed (outbound_request key (stringify rt (payload_object userPrompt)))))"
    using handler_try_valid [OF assms(2,3,4,5,6)] by blast
  then have "handler_try rt environment ev = Inr (Respond (configuration_error_response rt))"
    using assms(7) by auto
  then have "handler rt environment ev up
               = \<lparr>sent = [], reply = Some (configuration_error_response rt)\<rparr>"
    by (rule handler_not_options(2) [OF assms(1)])
  then show ?thesis by (simp add: status_codes configuration_error_body)
qed

theorem missing_credential_short_circuits_witness:
  "httpMethod (post_event sample_body) \<noteq> Some (js ''OPTIONS'')
   \<and> JSON_parse (body_or_default (post_event sample_body))
       = Some (JObj [(js ''prompt'', JStr (js ''Fix typos'')),
                     (js ''markdown'', JStr (js ''Helo world''))])
   \<and> trim (js ''Fix typos'') \<noteq> []
   \<and> OPENAI_API_KEY no_credential = None
   \<and> handler sample_runtime no_credential (post_event sample_body) idle_upstream
       = \<lparr>sent = [], reply = Some (configuration_error_response sample_runtime)\<rparr>
   \<and> statusCode (configuration_error_response sample_runtime) = 500"
proof -
  have k: "OPENAI_API_KEY no_credential = None \<or> OPENAI_API_KEY no_credential = Some []"
    by (simp add: sample_event_facts(4))
  have s: "get_property (JObj [(js ''prompt'', JStr (js ''Fix typos'')),
                               (js ''markdown'', JStr (js ''Helo world''))]) (js ''selectedText'') = None
           \<or> (\<exists>sel. get_property (JObj [(js ''prompt'', JStr (js ''Fix typos'')),
                               (js ''markdown'', JStr (js ''Helo world''))]) (js ''selectedText'')
                  = Some (JStr sel))"
    using sample_body_fields(5) by blast
  show ?thesis
    using missing_credential_short_circuits [OF sample_body_fields(6) sample_body_fields(1)
        sample_body_fields(2) sample_body_fields(3) sample_body_fields(4) s k,
        of sample_runtime idle_upstream]
      sample_body_fields(1,3,6) sample_event_facts(4)
    by simp
qed

text \<open>
  C6, as stated, at an \<open>OPTIONS\<close> request whose body is \<open>{"prompt":"   "}\<close>: the
  preflight branch answers 200 before the body is read.
\<close>

theorem options_with_blank_prompt_is_preflight:
  "JSON_parse (body_or_default (options_event (Some blank_prompt_body)))
     = Some (JObj [(js ''prompt'', JStr (js ''   ''))])
   \<and> trim (js ''   '') = []
   \<and> handler sample_runtime sample_environment (options_event (Some blank_prompt_body))
         idle_upstream = \<lparr>sent = [], reply = Some preflight_response\<rparr>
   \<and> statusCode preflight_response = 200"
  using blank_prompt_fields(2,4)
    handler_options [of sample_runtime sample_environment "Some blank_prompt_body" idle_upstream]
    status_codes(5)
  by simp

text \<open>
  C6, amended.  For every request other than a preflight whose body is valid JSON with a
  \<open>prompt\<close> string that is empty after trimming, the handler answers 400 with an
  \<open>error\<close> field and issues no outbound request.
\<close>

theorem blank_prompt_rejected:
  assumes "httpMethod ev \<noteq> Some (js ''OPTIONS'')"
    and "JSON_parse (body_or_default ev) = Some parsedBody"
    and "get_property parsedBody (js ''prompt'') = Some (JStr prompt)"
    and "trim prompt = []"
  shows \<open>handler rt environment ev up = \<lparr>sent = [], reply = Some (prompt_required_response rt)\<rparr>
         \<and> statusCode (prompt_required_response rt) = 400
         \<and> body (prompt_required_response rt) = js ''{"error":"Prompt is required"}''\<close>
proof -
  have "handler_try rt environment ev = Inr (Respond (prompt_required_response rt))"
    by (rule handler_try_blank_prompt [OF assms(2,3,4)])
  then have "handler rt environment ev up
               = \<lparr>sent = [], reply = Some (prompt_required_response rt)\<rparr>"
    by (rule handler_not_options(2) [OF assms(1)])
  then show ?thesis by (simp add: status_codes prompt_required_body)
qed

theorem blank_prompt_rejected_witness:
  "httpMethod (post_event blank_prompt_body) \<noteq> Some (js ''OPTIONS'')
   \<and> JSON_parse (body_or_default (post_event blank_prompt_body))
       = Some (JObj [(js ''prompt'', JStr (js ''   ''))])
   \<and> trim (js ''   '') = []
   \<and> handler sample_runtime sample_environment (post_event blank_prompt_body) idle_upstream
       = \<lparr>sent = [], reply = Some (prompt_required_response sample_runtime)\<rparr>
   \<and> statusCode (prompt_required_response sample_runtime) = 400"
  using blank_prompt_rejected [OF sample_event_facts(1) blank_prompt_fields(1)
      blank_prompt_fields(3) blank_prompt_fields(4), of sample_runtime sample_environment
      idle_upstream]
    sample_event_facts(1) [of blank_prompt_body] blank_prompt_fields(1,4)
  by simp

text \<open>
  C9, as stated, at an \<open>OPTIONS\<close> request whose body is \<open>{"prompt":"Fix typos"}\<close>:
  the answer is the preflight's 200, not a 500.
\<close>

theorem options_without_markdown_is_preflight:
  "JSON_parse (body_or_default (options_event (Some prompt_only_body)))
     = Some (JObj [(js ''prompt'', JStr (js ''Fix typos''))])
   \<and> trim (js ''Fix typos'') \<noteq> []
   \<and> get_property (JObj [(js ''prompt'', JStr (js ''Fix typos''))]) (js ''markdown'') = None
   \<and> handler sample_runtime sample_environment (options_event (Some prompt_only_body))
         idle_upstream = \<lparr>sent = [], reply = Some preflight_response\<rparr>
   \<and> statusCode preflight_response = 200"
  using prompt_only_fields(2,4) sample_body_fields(3)
    handler_options [of sample_runtime sample_environment "Some prompt_only_body" idle_upstream]
    status_codes(5)
  by simp

text \<open>
  C9, amended.  For every request other than a preflight whose body is valid JSON with a
  string \<open>prompt\<close> that is not blank and no \<open>markdown\<close> field, reading the length of
  \<open>undefined\<close> throws a TypeError that the outer \<open>catch\<close> turns into a 500 (not a 400)
  with \<open>Internal server error\<close> and the error's message, name and stack in the body; no
  outbound request is issued.
\<close>

theorem missing_markdown_internal_error:
  assumes "httpMethod ev \<noteq> Some (js ''OPTIONS'')"
    and "JSON_parse (body_or_default ev) = Some parsedBody"
    and "get_property parsedBody (js ''prompt'') = Some (JStr prompt)"
    and "trim prompt \<noteq> []"
    and "get_property parsedBody (js ''markdown'') = None"
  shows "handler rt environment ev up
           = \<lparr>sent = [],
              reply = Some (internal_error_response rt (type_error rt Markdown_length None))\<rparr>
         \<and> statusCode (internal_error_response rt (type_error rt Markdown_length None)) = 500
         \<and> body (internal_error_response rt (type_error rt Markdown_length None))
             = stringify rt (JObj
                 [(js ''error'', JStr (js ''Internal server error'')),
                  (js ''details'', JStr (fst (diagnostics rt Markdown_length None))),
                  (js ''errorName'', JStr (js ''TypeError'')),
                  (js ''stack'', JStr (snd (diagnostics rt Markdown_length None)))])"
proof -
  have "handler_try rt environment ev = Inl (type_error rt Markdown_length None)"
    by (rule handler_try_no_markdown [OF assms(2,3,4,5)])
  then have "handler rt environment ev up
           = \<lparr>sent = [],
              reply = Some (internal_error_response rt (type_error rt Markdown_length None))\<rparr>"
    by (rule handler_not_options(1) [OF assms(1)])
  then show ?thesis by (simp add: status_codes internal_error_body type_error_def)
qed

theorem missing_markdown_internal_error_witness:
  "httpMethod (post_event prompt_only_body) \<noteq> Some (js ''OPTIONS'')
   \<and> JSON_parse (body_or_default (post_event prompt_only_body))
       = Some (JObj [(js ''prompt'', JStr (js ''Fix typos''))])
   \<and> trim (js ''Fix typos'') \<noteq> []
   \<and> get_property (JObj [(js ''prompt'', JStr (js ''Fix typos''))]) (js ''markdown'') = None
   \<and> handler sample_runtime sample_environment (post_event prompt_only_body) idle_upstream
       = \<lparr>sent = [],
          reply = Some (internal_error_response sample_runtime
                          (type_error sample_runtime Markdown_length None))\<rparr>
   \<and> statusCode (internal_error_response sample_runtime
                    (type_error sample_runtime Markdown_length None)) = 500"
  using missing_markdown_internal_error [OF sample_event_facts(1) prompt_only_fields(1)
      prompt_only_fields(3) sample_body_fields(3) prompt_only_fields(4),
      of sample_runtime sample_environment idle_upstream]
    sample_event_facts(1) [of prompt_only_body] prompt_only_fields(1,4) sample_body_fields(3)
  by simp

text \<open>
  C10, as stated, at an \<open>OPTIONS\<close> request without a body: the answer is the preflight's
  200 with an empty body.
\<close>

theorem options_without_body_is_preflight:
  "body_of (options_event None) = None
   \<and> handler sample_runtime sample_environment (options_event None) idle_upstream
       = \<lparr>sent = [], reply = Some preflight_response\<rparr>
   \<and> statusCode preflight_response = 200
   \<and> body preflight_response = []"
  using handler_options [of sample_runtime sample_environment None idle_upstream] status_codes(5)
  by (simp add: options_event_def preflight_response_def)

text \<open>
  C10, amended.  For every request other than a preflight whose body is absent, \<open>null\<close> or
  the empty string, the body is replaced by \<open>'{}'\<close>, which parses to the empty object;
  the handler answers 400 with \<open>Prompt is required\<close>, which is not the answer for
  invalid JSON, and issues no outbound request.
\<close>

theorem absent_body_prompt_required:
  assumes "httpMethod ev \<noteq> Some (js ''OPTIONS'')"
    and "body_of ev = None \<or> body_of ev = Some []"
  shows \<open>body_or_default ev = js ''{}''
         \<and> JSON_parse (body_or_default ev) = Some (JObj [])
         \<and> handler rt environment ev up
             = \<lparr>sent = [], reply = Some (prompt_required_response rt)\<rparr>
         \<and> statusCode (prompt_required_response rt) = 400
         \<and> body (prompt_required_response rt) = js ''{"error":"Prompt is required"}''
         \<and> body (prompt_required_response rt) \<noteq> body (invalid_json_response rt)\<close>
proof -
  have d: "body_or_default ev = js ''{}''"
    using assms(2) by (auto simp: body_or_default_def)
  have p: "JSON_parse (body_or_default ev) = Some (JObj [])"
    by (simp only: d empty_object)
  have "handler_try rt environment ev = Inr (Respond (prompt_required_response rt))"
    by (rule handler_try_no_prompt [OF p]) simp_all
  then have h: "handler rt environment ev up
               = \<lparr>sent = [], reply = Some (prompt_required_response rt)\<rparr>"
    by (rule handler_not_options(2) [OF assms(1)])
  have ne: \<open>js ''{"error":"Prompt is required"}'' \<noteq> js ''{"error":"Invalid JSON in request body"}''\<close>
    by code_simp
  show ?thesis
    using d p h ne by (simp add: status_codes prompt_required_body invalid_json_body)
qed

theorem absent_body_prompt_required_witness:
  "httpMethod bodyless_post \<noteq> Some (js ''OPTIONS'')
   \<and> body_of bodyless_post = None
   \<and> handler sample_runtime sample_environment bodyless_post idle_upstream
       = \<lparr>sent = [], reply = Some (prompt_required_response sample_runtime)\<rparr>
   \<and> statusCode (prompt_required_response sample_runtime) = 400"
proof -
  have b: "body_of bodyless_post = None \<or> body_of bodyless_post = Some []"
    by (simp add: sample_event_facts(3))
  show ?thesis
    using absent_body_prompt_required [OF sample_event_facts(2) b, of sample_runtime
        sample_environment idle_upstream]
      sample_event_facts(2,3)
    by simp
qed


end
